theory Spec2Isabelle
  imports Main "HOL-Library.Char_ord" "HOL-Library.List_Lexorder" "HOL-Library.FSet"
begin

section \<open>Python values used by the consolidator\<close>

text \<open>
  Strings are \<^typ>\<open>string\<close>; their order (from \<open>Char_ord\<close> and
  \<open>List_Lexorder\<close>) is the lexicographic order on character codes,
  which is how Python compares \<open>str\<close>. A character stands for the code point of
  its code, so the texts of the model are the texts over the code points below 256;
  \<open>isspace\<close> and \<open>isalnum\<close> are \<open>str.isspace\<close> and \<open>str.isalnum\<close> on these code
  points. Exceptions are values of \<open>error\<close>.

  A row is a Python \<open>dict\<close>. The rows that \<open>csv.DictReader\<close> builds have keys that
  are either a column name or \<open>None\<close> (the default \<open>restkey\<close>), and values that are a
  string, \<open>None\<close> (the default \<open>restval\<close>) or a list of strings (under \<open>restkey\<close>).
\<close>

datatype error = OSError | UnicodeDecodeError | CsvError | ValueError | TypeError

datatype pykey = KNone | KStr string

datatype pyval = VNone | VStr string | VList "string list"

type_synonym row = "pykey \<rightharpoonup> pyval"

text \<open>\<open>row.get(key)\<close>: the value, or \<open>None\<close> when the key is absent.\<close>

definition row_get :: "row \<Rightarrow> string \<Rightarrow> pyval" where
  "row_get r key = (case r (KStr key) of None \<Rightarrow> VNone | Some v \<Rightarrow> v)"

text \<open>Truth value of an object: \<open>None\<close>, the empty string and the empty list are false.\<close>

fun truthy :: "pyval \<Rightarrow> bool" where
  "truthy VNone = False"
| "truthy (VStr s) = (s \<noteq> [])"
| "truthy (VList xs) = (xs \<noteq> [])"

text \<open>\<open>a or b\<close> is \<open>a\<close> when \<open>a\<close> is true and \<open>b\<close> otherwise.\<close>

definition py_or :: "pyval \<Rightarrow> pyval \<Rightarrow> pyval" where
  "py_or a b = (if truthy a then a else b)"

text \<open>
  \<open>str.strip()\<close> removes leading and trailing white space: the characters for which
  \<open>str.isspace\<close> holds, which below 256 are the code points 9 to 13, 28 to 32, 133
  (next line) and 160 (no-break space).
\<close>

definition isspace :: "char \<Rightarrow> bool" where
  "isspace c = (c \<in> set [CHR 0x09, CHR 0x0A, CHR 0x0B, CHR 0x0C, CHR 0x0D,
                          CHR 0x1C, CHR 0x1D, CHR 0x1E, CHR 0x1F, CHR 0x20,
                          CHR 0x85, CHR 0xA0])"

definition strip :: "string \<Rightarrow> string" where
  "strip s = rev (dropWhile isspace (rev (dropWhile isspace s)))"

text \<open>\<open>str(n)\<close> for a natural number: its decimal digits.\<close>

definition digit_char :: "nat \<Rightarrow> char" where
  "digit_char d = char_of (48 + d)"

fun str_nat :: "nat \<Rightarrow> string" where
  "str_nat n = (if n < 10 then [digit_char n] else str_nat (n div 10) @ [digit_char (n mod 10)])"

declare str_nat.simps [simp del]

section \<open>The \<open>csv\<close> module as the consolidator uses it\<close>

text \<open>
  The dialect sniffer and the record parser of the \<open>csv\<close> module are parameters:
  \<open>sniff\<close> returns \<open>None\<close> where \<open>csv.Sniffer().sniff\<close> raises, \<open>reader d content\<close> is
  \<open>list(csv.reader(f, dialect=d))\<close> over a file holding \<open>content\<close>, one list of fields for
  each record, or the exception that the parser raises. \<open>excel\<close> is \<open>csv.excel\<close>.
\<close>

record 'd csv_module =
  sniff :: "string \<Rightarrow> 'd option"
  excel :: "'d"
  reader :: "'d \<Rightarrow> string \<Rightarrow> error + string list list"

text \<open>
  \<open>csv.DictReader(f, dialect=d)\<close> with its defaults \<open>restkey=None\<close>, \<open>restval=None\<close>.
  \<open>fieldnames\<close> is the first record, or \<open>None\<close> when there is none. Each later record
  that is not \<open>[]\<close> becomes \<open>dict(zip(fieldnames, row))\<close>; a longer record stores its
  surplus fields as a list under the key \<open>None\<close>, a shorter one stores \<open>None\<close> under
  each missing field name.
\<close>

definition DictReader_fieldnames :: "string list list \<Rightarrow> string list option" where
  "DictReader_fieldnames records = (case records of [] \<Rightarrow> None | r # _ \<Rightarrow> Some r)"

definition dict_zip :: "string list \<Rightarrow> string list \<Rightarrow> row" where
  "dict_zip keys vals = foldl (\<lambda>d (k, v). d(KStr k \<mapsto> VStr v)) Map.empty (zip keys vals)"

definition DictReader_row :: "string list \<Rightarrow> string list \<Rightarrow> row" where
  "DictReader_row fieldnames r =
     (let d = dict_zip fieldnames r; lf = length fieldnames; lr = length r
      in if lf < lr then d(KNone \<mapsto> VList (drop lf r))
         else if lf > lr then foldl (\<lambda>d key. d(KStr key \<mapsto> VNone)) d (drop lr fieldnames)
         else d)"

definition DictReader_rows :: "string list \<Rightarrow> string list list \<Rightarrow> row list" where
  "DictReader_rows fieldnames rest =
     map (DictReader_row fieldnames) (filter (\<lambda>r. r \<noteq> []) rest)"

section \<open>\<open>readCsvFile\<close>\<close>

text \<open>
  The headerless conversion, written twice in \<open>readCsvFile\<close> with the same text:
  \<open>numColumns = len(rows[0])\<close>, headers \<open>Column1\<close> to \<open>ColumnN\<close>, and for every record
  that is not \<open>[]\<close> a dict filled from \<open>enumerate(row[:numColumns])\<close>.
\<close>

definition column_headers :: "nat \<Rightarrow> string list" where
  "column_headers numColumns = map (\<lambda>i. ''Column'' @ str_nat (i + 1)) [0..<numColumns]"

definition rowDict :: "string list \<Rightarrow> nat \<Rightarrow> string list \<Rightarrow> row" where
  "rowDict headers numColumns r =
     foldl (\<lambda>d (i, v). d(KStr (headers ! i) \<mapsto> VStr v)) Map.empty
       (enumerate 0 (take numColumns r))"

definition headerless :: "string list list \<Rightarrow> (row list \<times> string list \<times> bool) option" where
  "headerless rows =
     (case rows of
        [] \<Rightarrow> None
      | r0 # _ \<Rightarrow>
          (let numColumns = length r0;
               headers = column_headers numColumns;
               data = map (rowDict headers numColumns) (filter (\<lambda>r. r \<noteq> []) rows)
           in Some (data, headers, True)))"

text \<open>
  The dialect: sniffed from the first 1024 characters, \<open>csv.excel\<close> when the sniffer
  raises.
\<close>

definition detect_dialect :: "'d csv_module \<Rightarrow> string \<Rightarrow> 'd" where
  "detect_dialect csv content =
     (case sniff csv (take 1024 content) of None \<Rightarrow> excel csv | Some d \<Rightarrow> d)"

text \<open>
  The body of the \<open>try\<close> block. \<open>file\<close> is what opening and reading the file gives: the
  decoded text, or the exception raised. Both readers run over the whole file, so an
  exception of the parser anywhere in the file leaves the block.
\<close>

definition readCsvFile_try ::
  "'d csv_module \<Rightarrow> error + string \<Rightarrow> error + (row list \<times> string list \<times> bool)" where
  "readCsvFile_try csv file =
     (case file of
        Inl e \<Rightarrow> Inl e
      | Inr content \<Rightarrow>
          if strip content = [] then Inr ([], [], False)
          else
            (let dialect = detect_dialect csv content
             in case reader csv dialect content of
                  Inl e \<Rightarrow> Inl e
                | Inr rows \<Rightarrow>
                    (let fallback = (case headerless rows of
                                       Some res \<Rightarrow> res | None \<Rightarrow> ([], [], False))
                     in case DictReader_fieldnames rows of
                          None \<Rightarrow> Inr fallback
                        | Some fieldnames \<Rightarrow>
                            if fieldnames \<noteq> [] then
                              (let data = DictReader_rows fieldnames (tl rows)
                               in if data = [] then
                                    (case headerless rows of
                                       Some res \<Rightarrow> Inr res | None \<Rightarrow> Inr fallback)
                                  else Inr (data, fieldnames, True))
                            else Inr fallback)))"

text \<open>\<open>except Exception\<close>: every exception becomes the failure triple.\<close>

definition readCsvFile ::
  "'d csv_module \<Rightarrow> error + string \<Rightarrow> row list \<times> string list \<times> bool" where
  "readCsvFile csv file =
     (case readCsvFile_try csv file of Inl e \<Rightarrow> ([], [], False) | Inr res \<Rightarrow> res)"

section \<open>Paths\<close>

text \<open>
  \<open>os.path.join\<close> and \<open>os.path.split\<close> of \<open>posixpath\<close>, and \<open>pathlib.Path\<close> on POSIX.
  A \<open>Path\<close> is the list of its \<open>parts\<close>: the root, when the text starts with a
  slash, and then every component that is neither empty nor a single dot. Paths are
  compared by their lists of parts, component by component (\<open>PurePath.__lt__\<close>).
\<close>

definition path_join :: "string \<Rightarrow> string \<Rightarrow> string" where
  "path_join a b =
     (if b \<noteq> [] \<and> hd b = CHR ''/'' then b
      else if a = [] \<or> last a = CHR ''/'' then a @ b
      else a @ ''/'' @ b)"

definition os_path_split :: "string \<Rightarrow> string \<times> string" where
  "os_path_split p =
     (let tail = rev (takeWhile (\<lambda>c. c \<noteq> CHR ''/'') (rev p));
          head = rev (dropWhile (\<lambda>c. c \<noteq> CHR ''/'') (rev p))
      in (if head \<noteq> [] \<and> head \<noteq> replicate (length head) (CHR ''/'')
          then rev (dropWhile (\<lambda>c. c = CHR ''/'') (rev head)) else head,
          tail))"

fun split_on :: "char \<Rightarrow> string \<Rightarrow> string list" where
  "split_on sep [] = [[]]"
| "split_on sep (c # cs) =
     (let ws = split_on sep cs
      in if c = sep then [] # ws else (c # hd ws) # tl ws)"

type_synonym path = "string list"

definition splitroot :: "string \<Rightarrow> string \<times> string" where
  "splitroot part =
     (if part \<noteq> [] \<and> hd part = CHR ''/'' then
        (let stripped = dropWhile (\<lambda>c. c = CHR ''/'') part
         in (if length part - length stripped = 2 then ''//'' else ''/'', stripped))
      else ([], part))"

definition Path :: "string \<Rightarrow> path" where
  "Path f =
     (let (root, rel) = splitroot f
      in (if root = [] then [] else [root])
         @ filter (\<lambda>x. x \<noteq> [] \<and> x \<noteq> ''.'') (split_on (CHR ''/'') rel))"

definition is_root :: "string \<Rightarrow> bool" where
  "is_root part = (part \<noteq> [] \<and> hd part = CHR ''/'')"

text \<open>\<open>Path.name\<close>: the last component, empty for a path that is only a root.\<close>

definition name :: "path \<Rightarrow> string" where
  "name p = (if p = [] \<or> (length p = 1 \<and> is_root (hd p)) then [] else last p)"

fun join_sep :: "string list \<Rightarrow> string" where
  "join_sep [] = []"
| "join_sep [x] = x"
| "join_sep (x # y # ys) = x @ ''/'' @ join_sep (y # ys)"

text \<open>\<open>str(path)\<close>.\<close>

definition path_str :: "path \<Rightarrow> string" where
  "path_str p =
     (if p = [] then ''.''
      else if is_root (hd p) then hd p @ join_sep (tl p)
      else join_sep p)"

section \<open>The directory tree and \<open>glob\<close>\<close>

text \<open>
  The source directory is a tree: a node is a file or a directory with named entries,
  in the order in which the directory lists them.

  \<open>glob_flat\<close> is \<open>glob.glob(os.path.join(src, "*.csv"))\<close> and \<open>glob_recursive\<close> is
  \<open>glob.glob(os.path.join(src, "**", "*.csv"), recursive=True)\<close>, for a source
  directory \<open>src\<close> whose text holds no glob metacharacter (\<open>has_magic\<close>) and whose tree is
  \<open>fs\<close>. \<open>glob\<close> splits the pattern with \<open>os.path.split\<close>; the pattern \<open>*.csv\<close> selects,
  among the names a directory lists, those that end in \<open>.csv\<close> and do not start with
  a dot; the pattern \<open>**\<close> stands for the directory itself and for every directory
  below it that is reached through names that do not start with a dot.
\<close>

datatype node = File | Dir "(string \<times> node) list"

fun is_dir :: "node \<Rightarrow> bool" where
  "is_dir File = False"
| "is_dir (Dir es) = True"

fun entries :: "node \<Rightarrow> (string \<times> node) list" where
  "entries File = []"
| "entries (Dir es) = es"

definition has_magic :: "string \<Rightarrow> bool" where
  "has_magic s = list_ex (\<lambda>c. c = CHR ''*'' \<or> c = CHR ''?'' \<or> c = CHR ''['') s"

definition ishidden :: "string \<Rightarrow> bool" where
  "ishidden x = (x \<noteq> [] \<and> hd x = CHR ''.'')"

definition fnmatch_csv :: "string \<Rightarrow> bool" where
  "fnmatch_csv x = (4 \<le> length x \<and> drop (length x - 4) x = ''.csv'')"

definition glob1_csv :: "node \<Rightarrow> string list" where
  "glob1_csv d = filter fnmatch_csv (filter (\<lambda>x. \<not> ishidden x) (map fst (entries d)))"

fun rlistdir :: "node \<Rightarrow> (string \<times> node) list"
  and rlistdir_entries :: "(string \<times> node) list \<Rightarrow> (string \<times> node) list" where
  "rlistdir File = []"
| "rlistdir (Dir es) = rlistdir_entries es"
| "rlistdir_entries [] = []"
| "rlistdir_entries (e # es) =
     (if is_dir (snd e) \<and> \<not> ishidden (fst e)
      then (fst e, snd e) # map (\<lambda>(y, n). (path_join (fst e) y, n)) (rlistdir (snd e))
      else [])
     @ rlistdir_entries es"

definition glob2 :: "node \<Rightarrow> (string \<times> node) list" where
  "glob2 d = (if is_dir d then [([], d)] else []) @ rlistdir d"

definition glob_flat :: "node \<Rightarrow> string \<Rightarrow> string list" where
  "glob_flat fs src =
     (let pattern = path_join src ''*.csv'';
          (dirname, basename) = os_path_split pattern
      in map (path_join dirname) (glob1_csv fs))"

definition glob_recursive :: "node \<Rightarrow> string \<Rightarrow> string list" where
  "glob_recursive fs src =
     (let pattern = path_join (path_join src ''**'') ''*.csv'';
          (dirname, basename) = os_path_split pattern;
          (dirname0, basename0) = os_path_split dirname;
          dirs = map (\<lambda>(rel, d). (path_join dirname0 rel, d)) (glob2 fs)
      in concat (map (\<lambda>(dir, d). map (path_join dir) (glob1_csv d)) dirs))"

section \<open>The consolidator\<close>

record consolidator =
  companyName :: string
  sourceDirectory :: string
  includeSubdirectories :: bool
  consolidatedData :: "row list"
  allHeaders :: "string fset"
  csvFiles :: "path list"
  processedCount :: int
  errorCount :: int
  errorFiles :: "string list"

definition init :: consolidator where
  "init = \<lparr> companyName = [], sourceDirectory = [], includeSubdirectories = False,
            consolidatedData = [], allHeaders = {||}, csvFiles = [],
            processedCount = 0, errorCount = 0, errorFiles = [] \<rparr>"

subsection \<open>\<open>findCsvFiles\<close>\<close>

definition findCsvFiles :: "node \<Rightarrow> consolidator \<Rightarrow> bool \<times> consolidator" where
  "findCsvFiles fs st =
     (let found = (if includeSubdirectories st
                   then glob_recursive fs (sourceDirectory st)
                   else glob_flat fs (sourceDirectory st));
          st' = st\<lparr>csvFiles := sort (map Path found)\<rparr>
      in (csvFiles st' \<noteq> [], st'))"

subsection \<open>\<open>consolidateFiles\<close>\<close>

text \<open>\<open>open_read p\<close> is what opening and reading the file at \<open>p\<close> gives.\<close>

definition consolidate_file ::
  "'d csv_module \<Rightarrow> (path \<Rightarrow> error + string) \<Rightarrow> consolidator \<Rightarrow> path \<Rightarrow> consolidator" where
  "consolidate_file csv open_read st csvFile =
     (let (data, headers, success) = readCsvFile csv (open_read csvFile)
      in if success \<and> data \<noteq> [] then
           st\<lparr>consolidatedData := consolidatedData st @ data,
              allHeaders := allHeaders st |\<union>| fset_of_list headers,
              processedCount := processedCount st + 1\<rparr>
         else
           st\<lparr>errorCount := errorCount st + 1,
              errorFiles := errorFiles st @ [name csvFile]\<rparr>)"

definition consolidateFiles ::
  "'d csv_module \<Rightarrow> (path \<Rightarrow> error + string) \<Rightarrow> consolidator \<Rightarrow> bool \<times> consolidator" where
  "consolidateFiles csv open_read st =
     (let st' = foldl (consolidate_file csv open_read) st (csvFiles st)
      in (length (consolidatedData st') > 0, st'))"

subsection \<open>\<open>checkDuplicates\<close>\<close>

text \<open>
  \<open>Counter(xs)\<close> is a dict from each element to its number of occurrences, in the
  order of first occurrence. Its keys are hashed, and a list has no hash.
\<close>

fun counter_add :: "'a \<Rightarrow> ('a \<times> int) list \<Rightarrow> ('a \<times> int) list" where
  "counter_add x [] = [(x, 1)]"
| "counter_add x ((k, c) # kcs) =
     (if k = x then (k, c + 1) # kcs else (k, c) # counter_add x kcs)"

definition Counter :: "'a list \<Rightarrow> ('a \<times> int) list" where
  "Counter xs = foldl (\<lambda>counter x. counter_add x counter) [] xs"

fun hashable :: "pyval \<Rightarrow> bool" where
  "hashable (VList xs) = False"
| "hashable v = True"

definition serialNumber :: "row \<Rightarrow> pyval" where
  "serialNumber r =
     py_or (py_or (row_get r ''Device Serial Number'') (row_get r ''Serial Number''))
           (row_get r ''DeviceSerialNumber'')"

definition checkDuplicates :: "consolidator \<Rightarrow> (error + int) \<times> consolidator" where
  "checkDuplicates st =
     (let serialNumbers = filter truthy (map serialNumber (consolidatedData st))
      in if serialNumbers \<noteq> [] then
           if list_all hashable serialNumbers then
             (let counter = Counter serialNumbers;
                  duplicates = filter (\<lambda>(k, v). v > 1) counter;
                  duplicateCount = sum_list (map snd duplicates) - int (length duplicates)
              in (Inr duplicateCount, st))
           else (Inl TypeError, st)
         else (Inr 0, st))"

subsection \<open>\<open>exportResults\<close>\<close>

text \<open>
  \<open>csv.DictWriter(f, fieldnames)\<close> with its defaults \<open>restval=''\<close>,
  \<open>extrasaction='raise'\<close> and the \<open>excel\<close> dialect. A row with a key that is not a
  field name raises \<open>ValueError\<close>; a missing field is written as \<open>restval\<close>. The writer
  turns \<open>None\<close> into the empty string and any other object into its \<open>str\<close>
  (\<open>str_list\<close>, a parameter, for a list), quotes a field that holds the delimiter, the
  quote character or a line break, doubling each quote character, writes a record of
  one empty field as \<open>""\<close>, and ends every record with \<open>\r\n\<close>.
\<close>

definition row_get_default :: "row \<Rightarrow> string \<Rightarrow> pyval \<Rightarrow> pyval" where
  "row_get_default r key restval = (case r (KStr key) of None \<Rightarrow> restval | Some v \<Rightarrow> v)"

definition dict_to_list :: "string list \<Rightarrow> row \<Rightarrow> error + pyval list" where
  "dict_to_list fieldnames rowdict =
     (if dom rowdict - KStr ` set fieldnames \<noteq> {} then Inl ValueError
      else Inr (map (\<lambda>key. row_get_default rowdict key (VStr [])) fieldnames))"

fun field_text :: "(string list \<Rightarrow> string) \<Rightarrow> pyval \<Rightarrow> string" where
  "field_text str_list VNone = []"
| "field_text str_list (VStr s) = s"
| "field_text str_list (VList xs) = str_list xs"

definition quote_field :: "string \<Rightarrow> string" where
  "quote_field s =
     (if list_ex (\<lambda>c. c = CHR '','' \<or> c = CHR 0x22 \<or> c = CHR 0x0D \<or> c = CHR 0x0A) s
      then [CHR 0x22] @ concat (map (\<lambda>c. if c = CHR 0x22 then [c, c] else [c]) s) @ [CHR 0x22]
      else s)"

fun join_fields :: "string list \<Rightarrow> string" where
  "join_fields [] = []"
| "join_fields [x] = x"
| "join_fields (x # y # ys) = x @ '','' @ join_fields (y # ys)"

definition writerow :: "(string list \<Rightarrow> string) \<Rightarrow> pyval list \<Rightarrow> string" where
  "writerow str_list cells =
     (let line = join_fields (map (quote_field \<circ> field_text str_list) cells)
      in (if cells \<noteq> [] \<and> line = [] then [CHR 0x22, CHR 0x22] else line)
         @ [CHR 0x0D, CHR 0x0A])"

text \<open>
  \<open>writerows\<close> writes the rows in order and stops at the first row that raises; what was
  written before stays in the file.
\<close>

fun writerows ::
  "(string list \<Rightarrow> string) \<Rightarrow> string list \<Rightarrow> row list \<Rightarrow> string \<times> error option" where
  "writerows str_list fieldnames [] = ([], None)"
| "writerows str_list fieldnames (r # rs) =
     (case dict_to_list fieldnames r of
        Inl e \<Rightarrow> ([], Some e)
      | Inr cells \<Rightarrow>
          (let (out, err) = writerows str_list fieldnames rs
           in (writerow str_list cells @ out, err)))"

text \<open>
  \<open>str.isalnum\<close> on the code points below 256: the ASCII digits and letters, and the
  letters and numeric characters of the upper half (170, 178, 179, 181, 185, 186, 188
  to 190, 192 to 214, 216 to 246, 248 to 255). Then the sanitised company name.
\<close>

definition isalnum :: "char \<Rightarrow> bool" where
  "isalnum c =
     (let n = (of_char c :: nat)
      in (48 \<le> n \<and> n \<le> 57) \<or> (65 \<le> n \<and> n \<le> 90) \<or> (97 \<le> n \<and> n \<le> 122)
         \<or> n = 170 \<or> n = 178 \<or> n = 179 \<or> n = 181 \<or> n = 185 \<or> n = 186
         \<or> (188 \<le> n \<and> n \<le> 190) \<or> (192 \<le> n \<and> n \<le> 214)
         \<or> (216 \<le> n \<and> n \<le> 246) \<or> (248 \<le> n \<and> n \<le> 255))"

definition sanitize :: "string \<Rightarrow> string" where
  "sanitize label =
     map (\<lambda>c. if c = CHR '' '' then CHR ''_'' else c)
       (filter (\<lambda>c. isalnum c \<or> c = CHR '' '' \<or> c = CHR ''-'' \<or> c = CHR ''_'') label)"

text \<open>
  \<open>exportResults\<close> returns the output path, or \<open>None\<close> after an exception, together with
  the text of the output file (\<open>None\<close> when the file could not be opened).
  \<open>can_open\<close> says whether the output path can be opened for writing, \<open>timestamp\<close> is
  the formatted time of the call.
\<close>

definition outputPath :: "string \<Rightarrow> consolidator \<Rightarrow> string" where
  "outputPath timestamp st =
     (let sanitizedCompanyName = sanitize (companyName st);
          outputFileName = sanitizedCompanyName @ ''_ConsolidatedHardwareHashes_''
                           @ timestamp @ ''.csv''
      in path_join (sourceDirectory st) outputFileName)"

definition exportResults ::
  "(string list \<Rightarrow> string) \<Rightarrow> (string \<Rightarrow> bool) \<Rightarrow> string \<Rightarrow> consolidator
     \<Rightarrow> string option \<times> string option" where
  "exportResults str_list can_open timestamp st =
     (let outputPath = outputPath timestamp st
      in if \<not> can_open outputPath then (None, None)
         else
           (let fieldnames = sorted_list_of_fset (allHeaders st);
                header = writerow str_list (map VStr fieldnames);
                (body, err) = writerows str_list fieldnames (consolidatedData st)
            in (case err of None \<Rightarrow> Some outputPath | Some e \<Rightarrow> None,
                Some (header @ body))))"

section \<open>A \<open>csv\<close> module for the examples\<close>

text \<open>
  For text without quote characters and carriage returns the \<open>csv\<close> reader gives one
  record for each line, \<open>[]\<close> for an empty line, and otherwise the pieces of the line
  between the delimiters. \<open>example_csv\<close> reads such text; its sniffer always raises, so
  the dialect is \<open>csv.excel\<close>, whose delimiter is the comma.
\<close>

definition text_lines :: "string \<Rightarrow> string list" where
  "text_lines content =
     (let ls = split_on (CHR 0x0A) content in if last ls = [] then butlast ls else ls)"

definition simple_records :: "char \<Rightarrow> string \<Rightarrow> string list list" where
  "simple_records delimiter content =
     map (\<lambda>l. if l = [] then [] else split_on delimiter l) (text_lines content)"

definition example_csv :: "char csv_module" where
  "example_csv = \<lparr> sniff = (\<lambda>sample. None), excel = CHR '','',
                    reader = (\<lambda>delimiter content. Inr (simple_records delimiter content)) \<rparr>"

text \<open>A module whose reader raises on every file.\<close>

definition failing_csv :: "char csv_module" where
  "failing_csv = \<lparr> sniff = (\<lambda>sample. None), excel = CHR '','',
                    reader = (\<lambda>delimiter content. Inl CsvError) \<rparr>"

section \<open>The specification's wording, for comparison with the code\<close>

text \<open>
  Duplicate detection as the specification words it. The identifier of a row is the
  first non-empty string found under the candidate column names, tried in their fixed
  order; a row without one contributes nothing. The count is the sum of the occurrence
  counts of the identifiers that occur at least twice, minus the number of distinct
  such identifiers.
\<close>

definition candidate_keys :: "string list" where
  "candidate_keys = [''Device Serial Number'', ''Serial Number'', ''DeviceSerialNumber'']"

definition spec_identifier :: "row \<Rightarrow> string option" where
  "spec_identifier r =
     (case filter (\<lambda>s. s \<noteq> [])
             (List.map_filter (\<lambda>k. case r (KStr k) of Some (VStr s) \<Rightarrow> Some s | _ \<Rightarrow> None)
                candidate_keys) of
        [] \<Rightarrow> None
      | s # _ \<Rightarrow> Some s)"

definition spec_duplicates :: "string list \<Rightarrow> int" where
  "spec_duplicates ids =
     (\<Sum>k \<in> {k \<in> set ids. 2 \<le> count_list ids k}. int (count_list ids k))
     - int (card {k \<in> set ids. 2 \<le> count_list ids k})"

text \<open>
  A row whose candidate columns hold strings or \<open>None\<close>, never a list. Every row that
  \<open>readCsvFile\<close> builds is of this kind (\<open>consolidateFiles_str_cells\<close> below).
\<close>

definition str_cells :: "row \<Rightarrow> bool" where
  "str_cells r = list_all (\<lambda>k. hashable (row_get r k)) candidate_keys"

text \<open>The first non-empty string of a list of values.\<close>

fun first_id :: "pyval list \<Rightarrow> string option" where
  "first_id [] = None"
| "first_id (VStr (c # cs) # vs) = Some (c # cs)"
| "first_id (v # vs) = first_id vs"

text \<open>The count stored under a key of a counter, 0 for a key it does not hold.\<close>

definition cnt :: "('a \<times> int) list \<Rightarrow> 'a \<Rightarrow> int" where
  "cnt c k = (case map_of c k of None \<Rightarrow> 0 | Some n \<Rightarrow> n)"

text \<open>Six rows whose identifiers are A, A, B, C, C, C, and a seventh without one.\<close>

definition example_rows :: "row list" where
  "example_rows =
     [[KStr ''Device Serial Number'' \<mapsto> VStr ''A''],
      [KStr ''Device Serial Number'' \<mapsto> VStr [], KStr ''Serial Number'' \<mapsto> VStr ''A''],
      [KStr ''DeviceSerialNumber'' \<mapsto> VStr ''B'', KStr ''Model'' \<mapsto> VStr ''X''],
      [KStr ''Serial Number'' \<mapsto> VStr ''C'', KStr ''DeviceSerialNumber'' \<mapsto> VStr ''Z''],
      [KStr ''Device Serial Number'' \<mapsto> VNone, KStr ''DeviceSerialNumber'' \<mapsto> VStr ''C''],
      [KStr ''Serial Number'' \<mapsto> VStr ''C''],
      [KStr ''Model'' \<mapsto> VStr ''Y'', KStr ''Serial Number'' \<mapsto> VStr []]]"

text \<open>A file of three devices, two of them with the same serial number, and a run over it.\<close>

definition serial_file :: string where
  "serial_file = ''Serial Number,Model'' @ [CHR 0x0A] @ ''ABC123,Laptop'' @ [CHR 0x0A]
                 @ ''XYZ999,Desktop'' @ [CHR 0x0A] @ ''ABC123,Tablet'' @ [CHR 0x0A]"

definition serial_state :: consolidator where
  "serial_state = init\<lparr>sourceDirectory := ''/d'', csvFiles := [Path ''/d/devices.csv'']\<rparr>"

text \<open>The number that a string of decimal digits denotes.\<close>

definition digits_value :: "string \<Rightarrow> nat" where
  "digits_value s = foldl (\<lambda>a c. 10 * a + (of_char c - 48)) 0 s"


definition overlong_file :: string where
  "overlong_file = ''a,b'' @ [CHR 0x0A] @ ''1,2,3''"

definition overlong_state :: consolidator where
  "overlong_state =
     init\<lparr>companyName := ''Acme'', sourceDirectory := ''/d'', csvFiles := [Path ''/d/x.csv'']\<rparr>"

definition overlong_row :: row where
  "overlong_row = [KStr ''a'' \<mapsto> VStr ''1'', KStr ''b'' \<mapsto> VStr ''2'', KNone \<mapsto> VList [''3'']]"

text \<open>
  For the claims about discovery: the files that \<open>glob\<close> finds for a consolidator, the
  directory part of its patterns, the directories below a node together with the
  names that lead to them, the relative path that \<open>glob\<close> builds from such names, and
  trees and states for the examples.
\<close>

definition found_files :: "node \<Rightarrow> consolidator \<Rightarrow> string list" where
  "found_files fs st =
     (if includeSubdirectories st then glob_recursive fs (sourceDirectory st)
      else glob_flat fs (sourceDirectory st))"

definition example_tree :: node where
  "example_tree =
     Dir [(''b.csv'', File), (''notes.txt'', File),
          (''sub'', Dir [(''a.csv'', File), (''deep'', Dir [(''c.csv'', File)])]),
          (''.cache'', Dir [(''x.csv'', File)]), (''.hidden.csv'', File)]"

definition dotted_tree :: node where
  "dotted_tree = Dir [(''a.old'', Dir [(''x.csv'', File)]), (''a'', Dir [(''x.csv'', File)])]"

definition hidden_tree :: node where
  "hidden_tree = Dir [(''.cache'', Dir [(''x.csv'', File)])]"

definition scan_state :: "bool \<Rightarrow> consolidator" where
  "scan_state recursive = init\<lparr>sourceDirectory := ''/d'', includeSubdirectories := recursive\<rparr>"

definition pattern_dirname :: "string \<Rightarrow> string" where
  "pattern_dirname src = fst (os_path_split (path_join src ''*.csv''))"

inductive subdir_at :: "node \<Rightarrow> string list \<Rightarrow> node \<Rightarrow> bool" where
  here: "subdir_at d [] d"
| below: "(x, c) \<in> set (entries d) \<Longrightarrow> is_dir c \<Longrightarrow> subdir_at c xs e \<Longrightarrow> subdir_at d (x # xs) e"

fun rel_path :: "string list \<Rightarrow> string" where
  "rel_path [] = []"
| "rel_path [x] = x"
| "rel_path (x # y # ys) = path_join x (rel_path (y # ys))"

text \<open>
  The names that a directory listing can hold: not empty, not \<open>.\<close>, and without a
  separator. A tree is proper when all its names are. \<open>root_part\<close> and \<open>components\<close>
  read the anchor and the remaining parts of a path text, the two halves of \<open>Path\<close>.
\<close>

definition proper_name :: "string \<Rightarrow> bool" where
  "proper_name x = (x \<noteq> [] \<and> x \<noteq> ''.'' \<and> CHR ''/'' \<notin> set x)"

fun proper_tree :: "node \<Rightarrow> bool"
  and proper_entries :: "(string \<times> node) list \<Rightarrow> bool" where
  "proper_tree File = True"
| "proper_tree (Dir es) = proper_entries es"
| "proper_entries [] = True"
| "proper_entries (e # es) = (proper_name (fst e) \<and> proper_tree (snd e) \<and> proper_entries es)"

definition root_part :: "string \<Rightarrow> string list" where
  "root_part f =
     (let k = length (takeWhile (\<lambda>c. c = CHR ''/'') f)
      in if k = 0 then [] else if k = 2 then [''//''] else [''/''])"

definition components :: "string \<Rightarrow> string list" where
  "components f = filter (\<lambda>x. x \<noteq> [] \<and> x \<noteq> ''.'') (split_on (CHR ''/'') f)"

section \<open>Reading one file\<close>

lemma readCsvFile_parsed:
  assumes "strip content \<noteq> []"
    and "reader csv (detect_dialect csv content) content = Inr rows"
  shows "readCsvFile csv (Inr content) =
     (case rows of
        [] \<Rightarrow> ([], [], False)
      | first # rest \<Rightarrow>
          if first \<noteq> [] \<and> filter (\<lambda>r. r \<noteq> []) rest \<noteq> []
          then (DictReader_rows first rest, first, True)
          else (map (rowDict (column_headers (length first)) (length first))
                  (filter (\<lambda>r. r \<noteq> []) rows),
                column_headers (length first), True))"
  using assms
  by (cases rows)
     (simp_all add: readCsvFile_def readCsvFile_try_def headerless_def DictReader_fieldnames_def
        DictReader_rows_def Let_def)

lemma upds_notin_take:
  "x \<notin> set (take (length ys) xs) \<Longrightarrow> (m(xs [\<mapsto>] ys)) x = m x"
proof (induction xs arbitrary: ys m)
  case Nil
  then show ?case by simp
next
  case (Cons a xs)
  then show ?case by (cases ys) auto
qed

lemma upds_nth:
  "i < length ks \<Longrightarrow> i < length vs \<Longrightarrow> ks ! i \<notin> set (drop (Suc i) (take (length vs) ks))
   \<Longrightarrow> (m(ks [\<mapsto>] vs)) (ks ! i) = Some (vs ! i)"
proof (induction ks arbitrary: vs i m)
  case Nil
  then show ?case by simp
next
  case (Cons k ks)
  then obtain v vs' where vs: "vs = v # vs'" by (cases vs) auto
  show ?case
  proof (cases i)
    case 0
    with Cons.prems vs have "k \<notin> set (take (length vs') ks)" by simp
    from upds_notin_take[OF this] show ?thesis using 0 vs by simp
  next
    case (Suc j)
    with Cons.prems vs have "j < length ks" "j < length vs'"
      "ks ! j \<notin> set (drop (Suc j) (take (length vs') ks))" by simp_all
    from Cons.IH[OF this] show ?thesis using Suc vs by simp
  qed
qed

lemma dict_zip_upds: "dict_zip ks vs = Map.empty(map KStr ks [\<mapsto>] map VStr vs)"
proof -
  have "zip (map KStr ks) (map VStr vs) = map (\<lambda>(k, v). (KStr k, VStr v)) (zip ks vs)"
    by (simp add: zip_map_map)
  then show ?thesis
    by (simp add: dict_zip_def map_upds_fold_map_upd foldl_map case_prod_unfold)
qed

lemma dom_dict_zip: "dom (dict_zip ks vs) = KStr ` set (take (length vs) ks)"
  by (simp add: dict_zip_upds dom_map_upds take_map)

lemma dict_zip_nth:
  assumes "i < length ks" "i < length vs" "ks ! i \<notin> set (drop (Suc i) (take (length vs) ks))"
  shows "dict_zip ks vs (KStr (ks ! i)) = Some (VStr (vs ! i))"
proof -
  have inj: "inj KStr" by (simp add: inj_on_def)
  have "map KStr ks ! i \<notin> set (drop (Suc i) (take (length (map VStr vs)) (map KStr ks)))"
    using assms by (auto simp: drop_map take_map)
  from upds_nth[OF _ _ this, of Map.empty] assms show ?thesis
    by (simp add: dict_zip_upds)
qed

lemma rowDict_dict_zip:
  assumes "length headers = n"
  shows "rowDict headers n r = dict_zip headers r"
proof -
  have len: "length (take n r) \<le> length headers" using assms by simp
  have "map (\<lambda>(i, v). (headers ! i, v)) (enumerate 0 (take n r)) = zip headers (take n r)"
    using len by (auto simp: enumerate_eq_zip list_eq_iff_nth_eq)
  moreover have "zip headers (take n r) = zip headers r"
    using assms by (auto simp: list_eq_iff_nth_eq)
  moreover have "rowDict headers n r
     = foldl (\<lambda>d (k, v). d(KStr k \<mapsto> VStr v)) Map.empty
         (map (\<lambda>(i, v). (headers ! i, v)) (enumerate 0 (take n r)))"
    by (simp add: rowDict_def foldl_map case_prod_unfold)
  ultimately show ?thesis by (simp add: dict_zip_def)
qed


lemma upds_append:
  "length xs = length ys \<Longrightarrow> m(xs @ xs' [\<mapsto>] ys @ ys') = (m(xs [\<mapsto>] ys))(xs' [\<mapsto>] ys')"
proof (induction xs arbitrary: ys m)
  case Nil
  then show ?case by simp
next
  case (Cons a xs)
  then obtain b ys0 where ys: "ys = b # ys0" by (cases ys) auto
  with Cons.prems have "length xs = length ys0" by simp
  from Cons.IH[OF this, of "m(a \<mapsto> b)"] show ?case unfolding ys by (simp only: append_Cons map_upds_Cons)
qed

lemma foldl_const_upds:
  "foldl (\<lambda>d key. d(f key \<mapsto> c)) d ks = d(map f ks [\<mapsto>] replicate (length ks) c)"
  by (induction ks arbitrary: d) auto

lemma DictReader_row_short:
  assumes "length r \<le> length fieldnames"
  shows "DictReader_row fieldnames r
         = Map.empty(map KStr fieldnames [\<mapsto>]
             map VStr r @ replicate (length fieldnames - length r) VNone)"
proof -
  let ?lr = "length r"
  have split: "map KStr fieldnames = map KStr (take ?lr fieldnames) @ map KStr (drop ?lr fieldnames)"
    by (simp add: map_append[symmetric] del: map_append)
  have len: "length (map KStr (take ?lr fieldnames)) = length (map VStr r)"
    using assms by simp
  have d: "dict_zip fieldnames r = Map.empty(map KStr (take ?lr fieldnames) [\<mapsto>] map VStr r)"
    unfolding dict_zip_upds
    by (subst split) (rule fun_upds_append_drop[OF len])
  have "Map.empty(map KStr fieldnames [\<mapsto>] map VStr r @ replicate (length fieldnames - ?lr) VNone)
        = (dict_zip fieldnames r)(map KStr (drop ?lr fieldnames) [\<mapsto>]
             replicate (length fieldnames - ?lr) VNone)"
    unfolding d by (subst split) (rule upds_append[OF len])
  also have "\<dots> = foldl (\<lambda>d key. d(KStr key \<mapsto> VNone)) (dict_zip fieldnames r)
                      (drop ?lr fieldnames)"
    by (simp add: foldl_const_upds)
  finally show ?thesis using assms
    by (auto simp: DictReader_row_def Let_def)
qed

lemma dom_DictReader_row_short:
  assumes "length r \<le> length fieldnames"
  shows "dom (DictReader_row fieldnames r) = KStr ` set fieldnames"
  using assms by (simp add: DictReader_row_short dom_map_upds)

lemma DictReader_row_short_nth:
  assumes "length r \<le> length fieldnames" "i < length fieldnames"
    and "fieldnames ! i \<notin> set (drop (Suc i) fieldnames)"
  shows "DictReader_row fieldnames r (KStr (fieldnames ! i))
         = Some (if i < length r then VStr (r ! i) else VNone)"
proof -
  let ?ks = "map KStr fieldnames"
  let ?vs = "map VStr r @ replicate (length fieldnames - length r) VNone"
  have l: "length ?vs = length ?ks" using assms(1) by simp
  have "?ks ! i \<notin> set (drop (Suc i) (take (length ?vs) ?ks))"
    using assms(2,3) unfolding l by (auto simp: drop_map)
  from upds_nth[OF _ _ this, of Map.empty] assms(1,2)
  show ?thesis by (simp add: DictReader_row_short nth_append)
qed

lemma dom_DictReader_row_long:
  assumes "length fieldnames < length r"
  shows "dom (DictReader_row fieldnames r) = insert KNone (KStr ` set fieldnames)"
  using assms by (simp add: DictReader_row_def Let_def dom_dict_zip)


lemma digits_value_str_nat: "digits_value (str_nat n) = n"
proof (induction n rule: str_nat.induct)
  case (1 n)
  show ?case
  proof (cases "n < 10")
    case True
    then show ?thesis
      by (subst str_nat.simps) (simp add: digits_value_def digit_char_def)
  next
    case False
    have "n mod 10 < 10" by simp
    then have m: "(48 + n mod 10) mod 256 = 48 + n mod 10" by simp
    from False 1 have "digits_value (str_nat (n div 10)) = n div 10" by simp
    then show ?thesis using False m
      by (subst str_nat.simps) (simp add: digits_value_def digit_char_def)
  qed
qed

lemma str_nat_inj: "str_nat a = str_nat b \<Longrightarrow> a = b"
  by (metis digits_value_str_nat)

lemma distinct_column_headers: "distinct (column_headers n)"
  by (auto simp: column_headers_def distinct_map inj_on_def dest: str_nat_inj)

lemma length_column_headers: "length (column_headers n) = n"
  by (simp add: column_headers_def)

lemma take_column_headers: "take k (column_headers n) = column_headers (min k n)"
  by (cases "k \<le> n") (simp_all add: column_headers_def take_map min_def)

lemma nth_column_headers: "i < n \<Longrightarrow> column_headers n ! i = ''Column'' @ str_nat (i + 1)"
  by (simp add: column_headers_def)

lemma distinct_nth_notin_later:
  assumes "distinct ks" "i < length ks"
  shows "ks ! i \<notin> set (drop (Suc i) (take k ks))"
proof -
  have "distinct (take i ks @ ks ! i # drop (Suc i) ks)"
    using assms id_take_nth_drop[OF assms(2)] by simp
  then have "ks ! i \<notin> set (drop (Suc i) ks)" by simp
  moreover have "set (drop (Suc i) (take k ks)) \<subseteq> set (drop (Suc i) ks)"
    by (simp add: drop_take set_take_subset)
  ultimately show ?thesis by blast
qed

lemma dom_rowDict_columns:
  "dom (rowDict (column_headers n) n r) = KStr ` set (column_headers (min (length r) n))"
  by (simp add: rowDict_dict_zip[OF length_column_headers] dom_dict_zip take_column_headers)

lemma rowDict_columns_nth:
  assumes "i < n" "i < length r"
  shows "rowDict (column_headers n) n r (KStr (''Column'' @ str_nat (i + 1))) = Some (VStr (r ! i))"
proof -
  have "i < length (column_headers n)" using assms by (simp add: length_column_headers)
  from dict_zip_nth[OF this assms(2) distinct_nth_notin_later[OF distinct_column_headers this]]
  show ?thesis
    using assms by (simp add: rowDict_dict_zip[OF length_column_headers] nth_column_headers)
qed


lemma strip_all_space: "list_all isspace content \<Longrightarrow> strip content = []"
proof -
  assume "list_all isspace content"
  then have d: "dropWhile isspace content = []" by (induction content) simp_all
  show ?thesis unfolding strip_def d by simp
qed

lemma strip_empty_all_space: "strip content = [] \<Longrightarrow> list_all isspace content"
proof -
  assume "strip content = []"
  then have "dropWhile isspace (rev (dropWhile isspace content)) = []"
    by (simp add: strip_def)
  then have a: "\<forall>x \<in> set (dropWhile isspace content). isspace x"
    by (simp add: dropWhile_eq_Nil_conv)
  have "dropWhile isspace content = []"
  proof (rule ccontr)
    assume n: "dropWhile isspace content \<noteq> []"
    then have "\<not> isspace (hd (dropWhile isspace content))" by (rule hd_dropWhile)
    moreover have "hd (dropWhile isspace content) \<in> set (dropWhile isspace content)"
      using n by simp
    ultimately show False using a by blast
  qed
  then show ?thesis by (simp add: dropWhile_eq_Nil_conv list_all_iff)
qed

lemma isspace_codes:
  "isspace c = (of_char c \<in> {9, 10, 11, 12, 13, 28, 29, 30, 31, 32, 133, 160 :: nat})"
proof -
  have e: "\<And>d. (c = d) = (of_char c = (of_char d :: nat))" by simp
  show ?thesis unfolding isspace_def by (simp add: e)
qed

text \<open>
  Claim C8. \<open>readCsvFile\<close> returns a triple on every input and never passes an
  exception on: when opening, reading or decoding the file raises, when the text is
  empty or white space only (\<open>content.strip()\<close> is empty, which is the case exactly
  when every character is white space), when the parser raises, and for any exception
  that leaves the \<open>try\<close> block, the result is the failure triple \<open>([], [], False)\<close>.
\<close>

theorem readCsvFile_never_raises:
  "readCsvFile csv (Inl e) = ([], [], False)
   \<and> (list_all isspace content \<longrightarrow> readCsvFile csv (Inr content) = ([], [], False))
   \<and> (reader csv (detect_dialect csv content) content = Inl e
        \<longrightarrow> readCsvFile csv (Inr content) = ([], [], False))
   \<and> (readCsvFile_try csv file = Inl e \<longrightarrow> readCsvFile csv file = ([], [], False))
   \<and> (strip content = []) = list_all isspace content
   \<and> (\<forall>c. isspace c = (of_char c \<in> {9, 10, 11, 12, 13, 28, 29, 30, 31, 32, 133, 160 :: nat}))"
proof -
  have 1: "readCsvFile csv (Inl e) = ([], [], False)"
    by (simp add: readCsvFile_def readCsvFile_try_def)
  have 2: "list_all isspace content \<longrightarrow> readCsvFile csv (Inr content) = ([], [], False)"
    using strip_all_space[of content] by (simp add: readCsvFile_def readCsvFile_try_def)
  have 3: "reader csv (detect_dialect csv content) content = Inl e
           \<longrightarrow> readCsvFile csv (Inr content) = ([], [], False)"
    by (simp add: readCsvFile_def readCsvFile_try_def)
  have 4: "readCsvFile_try csv file = Inl e \<longrightarrow> readCsvFile csv file = ([], [], False)"
    by (simp add: readCsvFile_def)
  have 5: "(strip content = []) = list_all isspace content"
    using strip_all_space[of content] strip_empty_all_space[of content] by blast
  have 6: "\<forall>c. isspace c = (of_char c \<in> {9, 10, 11, 12, 13, 28, 29, 30, 31, 32, 133, 160 :: nat})"
    by (rule allI) (rule isspace_codes)
  show ?thesis by (intro conjI) (fact 1, fact 2, fact 3, fact 4, fact 5, fact 6)
qed

text \<open>
  A decode error, a file of a space and a line feed, a file of a no-break space and a
  next-line character, and a file on which the parser raises.
\<close>

theorem readCsvFile_never_raises_witness:
  "readCsvFile example_csv (Inl UnicodeDecodeError) = ([], [], False)
   \<and> list_all isspace [CHR '' '', CHR 0x0A]
   \<and> readCsvFile example_csv (Inr [CHR '' '', CHR 0x0A]) = ([], [], False)
   \<and> list_all isspace [CHR 0xA0, CHR 0x85]
   \<and> readCsvFile example_csv (Inr [CHR 0xA0, CHR 0x85]) = ([], [], False)
   \<and> reader failing_csv (detect_dialect failing_csv ''a,b'') ''a,b'' = Inl CsvError
   \<and> readCsvFile_try failing_csv (Inr ''a,b'') = Inl CsvError
   \<and> readCsvFile failing_csv (Inr ''a,b'') = ([], [], False)"
proof -
  have sp: "list_all isspace [CHR '' '', CHR 0x0A]" by (simp add: isspace_def)
  have nb: "list_all isspace [CHR 0xA0, CHR 0x85]" by (simp add: isspace_def)
  have rd: "reader failing_csv (detect_dialect failing_csv ''a,b'') ''a,b'' = Inl CsvError"
    by (simp add: failing_csv_def)
  have tr: "readCsvFile_try failing_csv (Inr ''a,b'') = Inl CsvError"
    by (simp add: readCsvFile_try_def failing_csv_def strip_def isspace_def)
  note a = readCsvFile_never_raises[of example_csv UnicodeDecodeError "[CHR '' '', CHR 0x0A]"
      "Inr ''a,b''"]
  note b = readCsvFile_never_raises[of example_csv UnicodeDecodeError "[CHR 0xA0, CHR 0x85]"
      "Inr ''a,b''"]
  note c = readCsvFile_never_raises[of failing_csv CsvError "''a,b''" "Inr ''a,b''"]
  have 1: "readCsvFile example_csv (Inl UnicodeDecodeError) = ([], [], False)"
    using a by blast
  have 2: "readCsvFile example_csv (Inr [CHR '' '', CHR 0x0A]) = ([], [], False)"
    using a sp by blast
  have 3: "readCsvFile example_csv (Inr [CHR 0xA0, CHR 0x85]) = ([], [], False)"
    using b nb by blast
  have 4: "readCsvFile failing_csv (Inr ''a,b'') = ([], [], False)"
    using c rd by blast
  show ?thesis by (intro conjI) (fact 1, fact sp, fact 2, fact nb, fact 3, fact rd, fact tr, fact 4)
qed

text \<open>
  Claim C2, as amended. For a file whose first record is a non-empty list of column
  names and that has at least one further record with fields, \<open>readCsvFile\<close> succeeds
  with one row for each such record, in order, and the column names as headers. A
  record with no more fields than the header gives a row whose keys are exactly the
  column names: a column that the record reaches holds the record's field, and a
  trailing column that the record does not reach is present and holds \<open>None\<close>. (For a
  column name that occurs more than once, this is said of its last occurrence.)
\<close>

theorem header_rows_keyed_by_fieldnames:
  assumes "strip content \<noteq> []"
    and "reader csv (detect_dialect csv content) content = Inr (fieldnames # rest)"
    and "fieldnames \<noteq> []"
    and "filter (\<lambda>r. r \<noteq> []) rest \<noteq> []"
  shows "readCsvFile csv (Inr content)
           = (map (DictReader_row fieldnames) (filter (\<lambda>r. r \<noteq> []) rest), fieldnames, True)
         \<and> (\<forall>r. length r \<le> length fieldnames
                \<longrightarrow> dom (DictReader_row fieldnames r) = KStr ` set fieldnames)
         \<and> (\<forall>r i. length r \<le> length fieldnames \<and> i < length fieldnames
                    \<and> fieldnames ! i \<notin> set (drop (Suc i) fieldnames)
                \<longrightarrow> DictReader_row fieldnames r (KStr (fieldnames ! i))
                      = Some (if i < length r then VStr (r ! i) else VNone))"
proof -
  have "readCsvFile csv (Inr content)
          = (map (DictReader_row fieldnames) (filter (\<lambda>r. r \<noteq> []) rest), fieldnames, True)"
    using readCsvFile_parsed[OF assms(1,2)] assms(3,4) by (simp add: DictReader_rows_def)
  then show ?thesis
    using dom_DictReader_row_short DictReader_row_short_nth by blast
qed

lemma example_reader:
  "reader example_csv (detect_dialect example_csv content) content
     = Inr (simple_records (CHR '','') content)"
  by (simp add: example_csv_def detect_dialect_def)

lemma column_headers_3: "column_headers 3 = [''Column1'', ''Column2'', ''Column3'']"
  by code_simp

lemma column_headers_2: "column_headers 2 = [''Column1'', ''Column2'']"
  by code_simp

lemma short_row_records:
  "simple_records (CHR '','') (''a,b'' @ [CHR 0x0A] @ ''1'') = [[''a'', ''b''], [''1'']]"
  by (simp add: simple_records_def text_lines_def)

lemma short_row_strip: "strip (''a,b'' @ [CHR 0x0A] @ ''1'') \<noteq> []"
  by (simp add: strip_def isspace_def)

lemma short_row_read:
  "readCsvFile example_csv (Inr (''a,b'' @ [CHR 0x0A] @ ''1''))
     = ([[KStr ''a'' \<mapsto> VStr ''1'', KStr ''b'' \<mapsto> VNone]], [''a'', ''b''], True)"
  using readCsvFile_parsed[OF short_row_strip, of example_csv, unfolded example_reader short_row_records]
  by (simp add: DictReader_rows_def DictReader_row_def dict_zip_def)

theorem header_rows_keyed_by_fieldnames_witness:
  "strip (''a,b'' @ [CHR 0x0A] @ ''1'') \<noteq> []
   \<and> reader example_csv (detect_dialect example_csv (''a,b'' @ [CHR 0x0A] @ ''1''))
        (''a,b'' @ [CHR 0x0A] @ ''1'') = Inr [[''a'', ''b''], [''1'']]
   \<and> readCsvFile example_csv (Inr (''a,b'' @ [CHR 0x0A] @ ''1''))
        = ([DictReader_row [''a'', ''b''] [''1'']], [''a'', ''b''], True)
   \<and> dom (DictReader_row [''a'', ''b''] [''1'']) = {KStr ''a'', KStr ''b''}
   \<and> DictReader_row [''a'', ''b''] [''1''] (KStr ''a'') = Some (VStr ''1'')
   \<and> DictReader_row [''a'', ''b''] [''1''] (KStr ''b'') = Some VNone"
proof -
  have rd: "reader example_csv (detect_dialect example_csv (''a,b'' @ [CHR 0x0A] @ ''1''))
        (''a,b'' @ [CHR 0x0A] @ ''1'') = Inr [[''a'', ''b''], [''1'']]"
    unfolding example_reader short_row_records by simp
  have ne: "[''a'', ''b''] \<noteq> ([] :: string list)" by simp
  have dr: "filter (\<lambda>r. r \<noteq> []) [[''1'']] \<noteq> ([] :: string list list)" by simp
  note t = header_rows_keyed_by_fieldnames[OF short_row_strip rd ne dr]
  have 1: "readCsvFile example_csv (Inr (''a,b'' @ [CHR 0x0A] @ ''1''))
        = ([DictReader_row [''a'', ''b''] [''1'']], [''a'', ''b''], True)"
    using t by simp
  have 2: "dom (DictReader_row [''a'', ''b''] [''1'']) = {KStr ''a'', KStr ''b''}"
    using t[THEN conjunct2, THEN conjunct1, rule_format, of "[''1'']"] by simp
  have 3: "DictReader_row [''a'', ''b''] [''1''] (KStr ''a'') = Some (VStr ''1'')"
    using t[THEN conjunct2, THEN conjunct2, rule_format, of "[''1'']" 0] by simp
  have 4: "DictReader_row [''a'', ''b''] [''1''] (KStr ''b'') = Some VNone"
    using t[THEN conjunct2, THEN conjunct2, rule_format, of "[''1'']" 1] by simp
  from short_row_strip rd 1 2 3 4 show ?thesis by blast
qed

text \<open>
  The claim as first stated fails: the file \<open>a,b\<close> / \<open>1\<close> gives a row in which the
  missing column \<open>b\<close> is a key, holding the placeholder \<open>None\<close>.
\<close>

theorem short_row_placeholder_counterexample:
  "fst (readCsvFile example_csv (Inr (''a,b'' @ [CHR 0x0A] @ ''1'')))
     = [[KStr ''a'' \<mapsto> VStr ''1'', KStr ''b'' \<mapsto> VNone]]
   \<and> KStr ''b'' \<in> dom (hd (fst (readCsvFile example_csv (Inr (''a,b'' @ [CHR 0x0A] @ ''1'')))))
   \<and> hd (fst (readCsvFile example_csv (Inr (''a,b'' @ [CHR 0x0A] @ ''1'')))) (KStr ''b'')
       = Some VNone"
  using short_row_read by simp

text \<open>
  Claim C4. For a file whose first record holds column names and that has no further
  record with fields, \<open>readCsvFile\<close> reads the same text again without a header: the
  first record is data, the headers are \<open>Column1\<close> to \<open>ColumnN\<close> with \<open>N\<close> the width of
  the first record, and the result is the one row that maps \<open>Column(i+1)\<close> to the
  \<open>i\<close>-th field. In the headerless conversion a record wider than \<open>N\<close> loses its
  surplus fields and a narrower one fills only the columns it has.
\<close>

theorem header_only_file_headerless:
  assumes "strip content \<noteq> []"
    and "reader csv (detect_dialect csv content) content = Inr (first # rest)"
    and "first \<noteq> []"
    and "filter (\<lambda>r. r \<noteq> []) rest = []"
  shows "readCsvFile csv (Inr content)
           = ([rowDict (column_headers (length first)) (length first) first],
              column_headers (length first), True)
         \<and> column_headers (length first)
             = map (\<lambda>i. ''Column'' @ str_nat (i + 1)) [0..<length first]
         \<and> dom (rowDict (column_headers (length first)) (length first) first)
             = KStr ` set (column_headers (length first))
         \<and> (\<forall>i. i < length first
                \<longrightarrow> rowDict (column_headers (length first)) (length first) first
                      (KStr (''Column'' @ str_nat (i + 1))) = Some (VStr (first ! i)))
         \<and> (\<forall>n r. dom (rowDict (column_headers n) n r)
                    = KStr ` set (column_headers (min (length r) n)))
         \<and> (\<forall>n r i. i < n \<and> i < length r
                \<longrightarrow> rowDict (column_headers n) n r (KStr (''Column'' @ str_nat (i + 1)))
                      = Some (VStr (r ! i)))"
proof -
  have 1: "readCsvFile csv (Inr content)
           = ([rowDict (column_headers (length first)) (length first) first],
              column_headers (length first), True)"
    using readCsvFile_parsed[OF assms(1,2)] assms(3,4) by simp
  have 2: "column_headers (length first)
             = map (\<lambda>i. ''Column'' @ str_nat (i + 1)) [0..<length first]"
    by (simp add: column_headers_def)
  have 3: "dom (rowDict (column_headers (length first)) (length first) first)
             = KStr ` set (column_headers (length first))"
    by (simp add: dom_rowDict_columns)
  have 4: "\<forall>i. i < length first
                \<longrightarrow> rowDict (column_headers (length first)) (length first) first
                      (KStr (''Column'' @ str_nat (i + 1))) = Some (VStr (first ! i))"
    using rowDict_columns_nth[of _ "length first" first] by simp
  have 5: "\<forall>n r. dom (rowDict (column_headers n) n r)
                    = KStr ` set (column_headers (min (length r) n))"
    by (simp add: dom_rowDict_columns)
  have 6: "\<forall>n r i. i < n \<and> i < length r
                \<longrightarrow> rowDict (column_headers n) n r (KStr (''Column'' @ str_nat (i + 1)))
                      = Some (VStr (r ! i))"
    using rowDict_columns_nth by simp
  show ?thesis by (intro conjI) (fact 1, fact 2, fact 3, fact 4, fact 5, fact 6)
qed

lemma abc_records: "simple_records (CHR '','') ''A,B,C'' = [[''A'', ''B'', ''C'']]"
  by (simp add: simple_records_def text_lines_def)

lemma abc_strip: "strip ''A,B,C'' \<noteq> []"
  by (simp add: strip_def isspace_def)

lemma rowDict_abc:
  "rowDict [''Column1'', ''Column2'', ''Column3''] 3 [a, b, c]
     = [KStr ''Column1'' \<mapsto> VStr a, KStr ''Column2'' \<mapsto> VStr b, KStr ''Column3'' \<mapsto> VStr c]"
  by (simp add: rowDict_def enumerate_eq_zip upt_rec[of 0] upt_rec[of 1] upt_rec[of 2])

theorem header_only_file_headerless_witness:
  "strip ''A,B,C'' \<noteq> []
   \<and> reader example_csv (detect_dialect example_csv ''A,B,C'') ''A,B,C'' = Inr [[''A'', ''B'', ''C'']]
   \<and> readCsvFile example_csv (Inr ''A,B,C'')
       = ([[KStr ''Column1'' \<mapsto> VStr ''A'', KStr ''Column2'' \<mapsto> VStr ''B'',
            KStr ''Column3'' \<mapsto> VStr ''C'']],
          [''Column1'', ''Column2'', ''Column3''], True)"
proof -
  have rd: "reader example_csv (detect_dialect example_csv ''A,B,C'') ''A,B,C''
              = Inr [[''A'', ''B'', ''C'']]"
    unfolding example_reader abc_records by simp
  have ne: "[''A'', ''B'', ''C''] \<noteq> ([] :: string list)" by simp
  have nd: "filter (\<lambda>r. r \<noteq> []) [] = ([] :: string list list)" by simp
  have len: "length [''A'', ''B'', ''C''] = 3" by simp
  from header_only_file_headerless[OF abc_strip rd ne nd, THEN conjunct1,
      unfolded len column_headers_3 rowDict_abc]
  have "readCsvFile example_csv (Inr ''A,B,C'')
       = ([[KStr ''Column1'' \<mapsto> VStr ''A'', KStr ''Column2'' \<mapsto> VStr ''B'',
            KStr ''Column3'' \<mapsto> VStr ''C'']],
          [''Column1'', ''Column2'', ''Column3''], True)" .
  with abc_strip rd show ?thesis by (intro conjI)
qed

text \<open>
  Claim C10. Where \<open>readCsvFile\<close> converts without a header (the first record has no
  field, or no later record has one), the rows are the conversions of exactly the
  records that are not \<open>[]\<close>, in order. A record of one or more empty fields, which is
  what a line of delimiters only parses to, is kept: its row is in the result, its
  keys are the first synthesized column names, as many as it has fields and at most
  \<open>N\<close>, and every one of them holds the empty string.
\<close>

theorem headerless_keeps_delimiter_only_rows:
  assumes "strip content \<noteq> []"
    and "reader csv (detect_dialect csv content) content = Inr (first # rest)"
    and "first = [] \<or> filter (\<lambda>r. r \<noteq> []) rest = []"
  shows "readCsvFile csv (Inr content)
           = (map (rowDict (column_headers (length first)) (length first))
                (filter (\<lambda>r. r \<noteq> []) (first # rest)),
              column_headers (length first), True)
         \<and> (\<forall>k. replicate (Suc k) [] \<in> set (first # rest)
                \<longrightarrow> rowDict (column_headers (length first)) (length first) (replicate (Suc k) [])
                      \<in> set (fst (readCsvFile csv (Inr content))))
         \<and> (\<forall>k n. dom (rowDict (column_headers n) n (replicate (Suc k) []))
                    = KStr ` set (column_headers (min (Suc k) n)))
         \<and> (\<forall>k n key. key \<in> dom (rowDict (column_headers n) n (replicate (Suc k) []))
                \<longrightarrow> rowDict (column_headers n) n (replicate (Suc k) []) key = Some (VStr []))"
proof -
  have 1: "readCsvFile csv (Inr content)
           = (map (rowDict (column_headers (length first)) (length first))
                (filter (\<lambda>r. r \<noteq> []) (first # rest)),
              column_headers (length first), True)"
    using readCsvFile_parsed[OF assms(1,2)] assms(3) by auto
  have 2: "\<And>k. replicate (Suc k) [] \<in> set (first # rest)
            \<Longrightarrow> rowDict (column_headers (length first)) (length first) (replicate (Suc k) [])
                  \<in> set (fst (readCsvFile csv (Inr content)))"
  proof -
    fix k :: nat
    assume a: "replicate (Suc k) [] \<in> set (first # rest)"
    have "replicate (Suc k) ([] :: string) \<noteq> []" by simp
    with a have "replicate (Suc k) [] \<in> set (filter (\<lambda>r. r \<noteq> []) (first # rest))"
      unfolding set_filter by blast
    then show "rowDict (column_headers (length first)) (length first) (replicate (Suc k) [])
                  \<in> set (fst (readCsvFile csv (Inr content)))"
      unfolding 1 by (simp only: fst_conv set_map) (rule imageI)
  qed
  have 3: "\<And>k n. dom (rowDict (column_headers n) n (replicate (Suc k) []))
                    = KStr ` set (column_headers (min (Suc k) n))"
    using dom_rowDict_columns[of _ "replicate (Suc _) []"] by simp
  have 4: "\<And>k n key. key \<in> dom (rowDict (column_headers n) n (replicate (Suc k) []))
                \<Longrightarrow> rowDict (column_headers n) n (replicate (Suc k) []) key = Some (VStr [])"
  proof -
    fix k n :: nat and key
    assume "key \<in> dom (rowDict (column_headers n) n (replicate (Suc k) []))"
    then have "key \<in> KStr ` set (column_headers (min (Suc k) n))" unfolding 3 .
    then obtain i where i: "i < min (Suc k) n" "key = KStr (''Column'' @ str_nat (i + 1))"
      by (auto simp: column_headers_def)
    then have lt: "i < n" "i < length (replicate (Suc k) ([] :: string))" by simp_all
    have nth: "replicate (Suc k) ([] :: string) ! i = []"
      using i(1) by (intro nth_replicate) simp
    from rowDict_columns_nth[OF lt] show
      "rowDict (column_headers n) n (replicate (Suc k) []) key = Some (VStr [])"
      unfolding i(2) nth .
  qed
  have a2: "\<forall>k. replicate (Suc k) [] \<in> set (first # rest)
                \<longrightarrow> rowDict (column_headers (length first)) (length first) (replicate (Suc k) [])
                      \<in> set (fst (readCsvFile csv (Inr content)))"
    using 2 by blast
  have a3: "\<forall>k n. dom (rowDict (column_headers n) n (replicate (Suc k) []))
                    = KStr ` set (column_headers (min (Suc k) n))"
    using 3 by blast
  have a4: "\<forall>k n key. key \<in> dom (rowDict (column_headers n) n (replicate (Suc k) []))
                \<longrightarrow> rowDict (column_headers n) n (replicate (Suc k) []) key = Some (VStr [])"
    using 4 by blast
  show ?thesis by (intro conjI) (fact 1, fact a2, fact a3, fact a4)
qed

lemma commas_records: "simple_records (CHR '','') ('',,'' @ [CHR 0x0A, CHR 0x0A]) = [[[], [], []], []]"
  by (simp add: simple_records_def text_lines_def)

lemma commas_strip: "strip ('',,'' @ [CHR 0x0A, CHR 0x0A]) \<noteq> []"
  by (simp add: strip_def isspace_def)

theorem headerless_keeps_delimiter_only_rows_witness:
  "strip ('',,'' @ [CHR 0x0A, CHR 0x0A]) \<noteq> []
   \<and> reader example_csv (detect_dialect example_csv ('',,'' @ [CHR 0x0A, CHR 0x0A]))
        ('',,'' @ [CHR 0x0A, CHR 0x0A]) = Inr [[[], [], []], []]
   \<and> readCsvFile example_csv (Inr ('',,'' @ [CHR 0x0A, CHR 0x0A]))
       = ([[KStr ''Column1'' \<mapsto> VStr [], KStr ''Column2'' \<mapsto> VStr [], KStr ''Column3'' \<mapsto> VStr []]],
          [''Column1'', ''Column2'', ''Column3''], True)"
proof -
  let ?c = "'',,'' @ [CHR 0x0A, CHR 0x0A]"
  have rd: "reader example_csv (detect_dialect example_csv ?c) ?c = Inr [[[], [], []], []]"
    unfolding example_reader commas_records by simp
  have h: "[[], [], []] = ([] :: string list) \<or> filter (\<lambda>r. r \<noteq> []) [[]] = ([] :: string list list)"
    by simp
  have len: "length [[], [], [] :: string] = 3" by simp
  have f: "filter (\<lambda>r. r \<noteq> []) [[[], [], []], [] :: string list] = [[[], [], []]]" by simp
  from headerless_keeps_delimiter_only_rows[OF commas_strip rd h, THEN conjunct1,
      unfolded len f list.map column_headers_3 rowDict_abc]
  have "readCsvFile example_csv (Inr ?c)
       = ([[KStr ''Column1'' \<mapsto> VStr [], KStr ''Column2'' \<mapsto> VStr [], KStr ''Column3'' \<mapsto> VStr []]],
          [''Column1'', ''Column2'', ''Column3''], True)" .
  with commas_strip rd show ?thesis by (intro conjI)
qed

section \<open>Writing the output and the keys of the rows\<close>


lemma writerows_extra_key:
  assumes "\<not> dom r \<subseteq> KStr ` set fieldnames"
  shows "writerows str_list fieldnames (r # rows) = ([], Some ValueError)"
proof -
  from assms have "dom r - KStr ` set fieldnames \<noteq> {}" by auto
  then show ?thesis by (simp add: dict_to_list_def)
qed





lemma sorted_ab: "sorted_list_of_fset {|''a'', ''b''|} = [''a'', ''b'']"
  by code_simp



lemma overlong_records:
  "simple_records (CHR '','') overlong_file = [[''a'', ''b''], [''1'', ''2'', ''3'']]"
  by (simp add: simple_records_def text_lines_def overlong_file_def)

lemma overlong_strip: "strip overlong_file \<noteq> []"
  by (simp add: strip_def isspace_def overlong_file_def)

lemma overlong_read:
  "readCsvFile example_csv (Inr overlong_file) = ([overlong_row], [''a'', ''b''], True)"
  using readCsvFile_parsed[OF overlong_strip, of example_csv, unfolded example_reader overlong_records]
  by (simp add: DictReader_rows_def DictReader_row_def dict_zip_def overlong_row_def)

text \<open>
  Claim C3 at its failing input. One file with the header \<open>a,b\<close> and the record
  \<open>1,2,3\<close>: after \<open>consolidateFiles\<close> the only row has the key \<open>None\<close>, holding the
  surplus field, while \<open>allHeaders\<close> is \<open>{a, b}\<close>; the row's keys are not all in
  \<open>allHeaders\<close>, and \<open>exportResults\<close> then fails on the row and returns \<open>None\<close>.
\<close>

theorem consolidateFiles_overlong_row:
  "fst (consolidateFiles example_csv (\<lambda>p. Inr overlong_file) overlong_state) = True
   \<and> consolidatedData (snd (consolidateFiles example_csv (\<lambda>p. Inr overlong_file) overlong_state))
       = [overlong_row]
   \<and> allHeaders (snd (consolidateFiles example_csv (\<lambda>p. Inr overlong_file) overlong_state))
       = {|''a'', ''b''|}
   \<and> KNone \<in> dom overlong_row
   \<and> \<not> dom overlong_row \<subseteq> KStr ` fset {|''a'', ''b''|}
   \<and> fst (exportResults concat (\<lambda>p. True) ''2024-01-31_0905''
            (snd (consolidateFiles example_csv (\<lambda>p. Inr overlong_file) overlong_state))) = None"
proof -
  let ?st = "snd (consolidateFiles example_csv (\<lambda>p. Inr overlong_file) overlong_state)"
  have d: "consolidatedData ?st = [overlong_row]"
    by (simp add: consolidateFiles_def consolidate_file_def overlong_read overlong_state_def init_def)
  have h: "allHeaders ?st = {|''a'', ''b''|}"
    by (simp add: consolidateFiles_def consolidate_file_def overlong_read overlong_state_def init_def)
  have f: "fst (consolidateFiles example_csv (\<lambda>p. Inr overlong_file) overlong_state) = True"
    using d by (simp add: consolidateFiles_def Let_def)
  have k: "KNone \<in> dom overlong_row" by (simp add: overlong_row_def)
  have n: "\<not> dom overlong_row \<subseteq> KStr ` fset {|''a'', ''b''|}" using k by auto
  have "\<not> dom overlong_row \<subseteq> KStr ` set [''a'', ''b'']" using k by auto
  from writerows_extra_key[OF this, of concat "[]"]
  have e: "fst (exportResults concat (\<lambda>p. True) ''2024-01-31_0905'' ?st) = None"
    by (simp add: exportResults_def d h sorted_ab Let_def)
  show ?thesis by (intro conjI) (fact f, fact d, fact h, fact k, fact n, fact e)
qed

section \<open>Discovery\<close>

lemma split_join:
  assumes "t \<noteq> []" "CHR ''/'' \<notin> set t"
  shows "os_path_split (path_join a t) = (pattern_dirname a, t)"
proof -
  define jp where "jp = (if a = [] \<or> last a = CHR ''/'' then a else a @ ''/'')"
  have hd_t: "hd t \<noteq> CHR ''/''" using assms by (cases t) auto
  have pj: "\<And>u. u \<noteq> [] \<Longrightarrow> hd u \<noteq> CHR ''/'' \<Longrightarrow> path_join a u = jp @ u"
    by (simp add: path_join_def jp_def)
  have tw0: "takeWhile (\<lambda>c. c \<noteq> CHR ''/'') (rev jp) = []"
    by (cases "a = []") (simp_all add: jp_def takeWhile_eq_Nil_iff hd_rev)
  have dw0: "dropWhile (\<lambda>c. c \<noteq> CHR ''/'') (rev jp) = rev jp"
    by (cases "a = []") (simp_all add: jp_def dropWhile_eq_self_iff hd_rev)
  have sp: "\<And>u. CHR ''/'' \<notin> set u \<Longrightarrow> os_path_split (jp @ u)
      = (if jp \<noteq> [] \<and> jp \<noteq> replicate (length jp) (CHR ''/'')
         then rev (dropWhile (\<lambda>c. c = CHR ''/'') (rev jp)) else jp, u)"
  proof -
    fix u :: string assume u: "CHR ''/'' \<notin> set u"
    then have all: "\<And>x. x \<in> set (rev u) \<Longrightarrow> x \<noteq> CHR ''/''" by auto
    have "takeWhile (\<lambda>c. c \<noteq> CHR ''/'') (rev u @ rev jp)
            = rev u @ takeWhile (\<lambda>c. c \<noteq> CHR ''/'') (rev jp)"
      by (rule takeWhile_append2) (rule all)
    then have tw: "takeWhile (\<lambda>c. c \<noteq> CHR ''/'') (rev (jp @ u)) = rev u"
      unfolding tw0 by simp
    have "dropWhile (\<lambda>c. c \<noteq> CHR ''/'') (rev u @ rev jp)
            = dropWhile (\<lambda>c. c \<noteq> CHR ''/'') (rev jp)"
      by (rule dropWhile_append2) (rule all)
    then have dw: "dropWhile (\<lambda>c. c \<noteq> CHR ''/'') (rev (jp @ u)) = rev jp"
      unfolding dw0 by simp
    show "os_path_split (jp @ u)
      = (if jp \<noteq> [] \<and> jp \<noteq> replicate (length jp) (CHR ''/'')
         then rev (dropWhile (\<lambda>c. c = CHR ''/'') (rev jp)) else jp, u)"
      unfolding os_path_split_def tw dw by (simp add: Let_def)
  qed
  have star: "CHR ''/'' \<notin> set ''*.csv''" "''*.csv'' \<noteq> []" "hd ''*.csv'' \<noteq> CHR ''/''" by simp_all
  have "pattern_dirname a = fst (os_path_split (jp @ ''*.csv''))"
    unfolding pattern_dirname_def using pj[OF star(2,3)] by simp
  then show ?thesis
    using sp[OF star(1)] sp[OF assms(2)] pj[OF assms(1) hd_t] by simp
qed

lemma path_join_empty: "path_join (path_join a []) x = path_join a x"
  by (simp add: path_join_def)

lemma glob_flat_eq: "glob_flat fs src = map (path_join (pattern_dirname src)) (glob1_csv fs)"
  by (simp add: glob_flat_def pattern_dirname_def split_beta Let_def)

lemma pattern_dirname_id:
  assumes "a \<noteq> []" "last a \<noteq> CHR ''/''"
  shows "pattern_dirname a = a"
proof -
  have pj: "path_join a ''*.csv'' = a @ ''/*.csv''" using assms by (simp add: path_join_def)
  have hd: "hd (rev a) \<noteq> CHR ''/''" using assms by (simp add: hd_rev)
  have ne: "rev a \<noteq> []" using assms by simp
  have dw: "dropWhile (\<lambda>c. c = CHR ''/'') (rev a) = rev a"
    using hd ne by (cases "rev a") simp_all
  have nrep: "a @ ''/'' \<noteq> replicate (Suc (length a)) (CHR ''/'')"
  proof
    assume "a @ ''/'' = replicate (Suc (length a)) (CHR ''/'')"
    then have "set (a @ ''/'') \<subseteq> {CHR ''/''}" by (metis set_replicate_conv_if subset_refl empty_subsetI)
    moreover have "last a \<in> set (a @ ''/'')" using last_in_set[OF assms(1)] by simp
    ultimately have "last a = CHR ''/''" by blast
    with assms(2) show False by simp
  qed
  show ?thesis
    unfolding pattern_dirname_def pj os_path_split_def
    using dw nrep by (simp add: Let_def)
qed

lemma pattern_dirname_rec:
  "os_path_split (path_join (path_join src ''**'') ''*.csv'') = (path_join src ''**'', ''*.csv'')"
  "os_path_split (path_join src ''**'') = (pattern_dirname src, ''**'')"
proof -
  show "os_path_split (path_join src ''**'') = (pattern_dirname src, ''**'')"
    by (rule split_join) simp_all
  have l: "path_join src ''**'' \<noteq> []" "last (path_join src ''**'') \<noteq> CHR ''/''"
    by (simp_all add: path_join_def)
  have "os_path_split (path_join (path_join src ''**'') ''*.csv'')
          = (pattern_dirname (path_join src ''**''), ''*.csv'')"
    by (rule split_join) simp_all
  then show "os_path_split (path_join (path_join src ''**'') ''*.csv'')
          = (path_join src ''**'', ''*.csv'')"
    unfolding pattern_dirname_id[OF l] .
qed

lemma glob_recursive_eq:
  "glob_recursive fs src
     = concat (map (\<lambda>(rel, d). map (path_join (path_join (pattern_dirname src) rel)) (glob1_csv d))
                 (glob2 fs))"
  by (simp add: glob_recursive_def pattern_dirname_rec Let_def case_prod_unfold comp_def)


lemma rlistdir_entries_direct:
  "(x, c) \<in> set es \<Longrightarrow> is_dir c \<Longrightarrow> \<not> ishidden x \<Longrightarrow> (x, c) \<in> set (rlistdir_entries es)"
  by (induction es) auto

lemma rlistdir_entries_below:
  "(x, c) \<in> set es \<Longrightarrow> is_dir c \<Longrightarrow> \<not> ishidden x \<Longrightarrow> (y, e) \<in> set (rlistdir c)
   \<Longrightarrow> (path_join x y, e) \<in> set (rlistdir_entries es)"
  by (induction es) (auto simp: image_iff intro!: bexI)

lemma rlistdir_entries: "rlistdir d = rlistdir_entries (entries d)"
  by (cases d) simp_all

lemma subdir_at_rlistdir:
  "subdir_at d ds e \<Longrightarrow> ds \<noteq> [] \<Longrightarrow> list_all (\<lambda>n. \<not> ishidden n) ds
   \<Longrightarrow> (rel_path ds, e) \<in> set (rlistdir d)"
proof (induction rule: subdir_at.induct)
  case (here d)
  then show ?case by simp
next
  case (below x c d xs e)
  then have nh: "\<not> ishidden x" by simp
  show ?case
  proof (cases xs)
    case Nil
    with below.hyps(3) have "e = c" by (auto elim: subdir_at.cases)
    with Nil rlistdir_entries_direct[OF below.hyps(1,2) nh] show ?thesis
      by (simp add: rlistdir_entries)
  next
    case (Cons y ys)
    with below have "(rel_path xs, e) \<in> set (rlistdir c)" by simp
    from rlistdir_entries_below[OF below.hyps(1,2) nh this] Cons show ?thesis
      by (simp add: rlistdir_entries)
  qed
qed

lemma subdir_at_glob2:
  assumes "subdir_at fs ds e" "list_all (\<lambda>n. \<not> ishidden n) ds" "is_dir fs"
  shows "(rel_path ds, e) \<in> set (glob2 fs)"
proof (cases ds)
  case Nil
  with assms(1) have "e = fs" by (auto elim: subdir_at.cases)
  with Nil assms(3) show ?thesis by (simp add: glob2_def)
next
  case (Cons a list)
  then have "ds \<noteq> []" by simp
  from subdir_at_rlistdir[OF assms(1) this assms(2)] show ?thesis by (simp add: glob2_def)
qed

lemma glob1_csv_set:
  "set (glob1_csv d) = {x \<in> fst ` set (entries d). \<not> ishidden x \<and> fnmatch_csv x}"
  by (auto simp: glob1_csv_def)

lemma glob_recursive_any_depth:
  assumes "subdir_at fs ds e" "list_all (\<lambda>n. \<not> ishidden n) ds" "x \<in> set (glob1_csv e)"
  shows "path_join (path_join (pattern_dirname src) (rel_path ds)) x \<in> set (glob_recursive fs src)"
proof -
  have "is_dir fs"
  proof (cases ds)
    case Nil
    with assms(1) have "e = fs" by (auto elim: subdir_at.cases)
    with assms(3) show ?thesis by (cases fs) (simp_all add: glob1_csv_def)
  next
    case (Cons a list)
    with assms(1) obtain c where "(a, c) \<in> set (entries fs)" by (auto elim: subdir_at.cases)
    then show ?thesis by (cases fs) simp_all
  qed
  from subdir_at_glob2[OF assms(1,2) this] assms(3) show ?thesis
    unfolding glob_recursive_eq by (auto intro!: bexI[of _ "(rel_path ds, e)"])
qed

lemma glob_flat_subset: "set (glob_flat fs src) \<subseteq> set (glob_recursive fs src)"
proof
  fix p assume "p \<in> set (glob_flat fs src)"
  then obtain x where x: "x \<in> set (glob1_csv fs)" "p = path_join (pattern_dirname src) x"
    by (auto simp: glob_flat_eq)
  from glob_recursive_any_depth[OF subdir_at.here _ x(1), of src] x(2)
  show "p \<in> set (glob_recursive fs src)" by (simp add: path_join_empty)
qed

lemma csvFiles_findCsvFiles:
  "csvFiles (snd (findCsvFiles fs st))
     = sort (map Path (if includeSubdirectories st then glob_recursive fs (sourceDirectory st)
                       else glob_flat fs (sourceDirectory st)))"
  by (simp add: findCsvFiles_def Let_def)


text \<open>
  Claim C6, as amended. \<open>findCsvFiles\<close> stores the files that \<open>glob\<close> found, each as a
  \<open>Path\<close>, sorted ascending in the order of paths: the lists of components are
  compared component by component, each component as a string. Nothing is lost or
  added by the sort. When \<open>glob\<close> finds nothing, the list is empty and the result is
  \<open>False\<close>; no exception is raised.
\<close>

theorem findCsvFiles_sorted_by_parts:
  "csvFiles (snd (findCsvFiles fs st)) = sort (map Path (found_files fs st))
   \<and> sorted (csvFiles (snd (findCsvFiles fs st)))
   \<and> set (csvFiles (snd (findCsvFiles fs st))) = Path ` set (found_files fs st)
   \<and> length (csvFiles (snd (findCsvFiles fs st))) = length (found_files fs st)
   \<and> fst (findCsvFiles fs st) = (found_files fs st \<noteq> [])
   \<and> (found_files fs st = [] \<longrightarrow> findCsvFiles fs st = (False, st\<lparr>csvFiles := []\<rparr>))"
proof -
  have 1: "csvFiles (snd (findCsvFiles fs st)) = sort (map Path (found_files fs st))"
    by (simp add: csvFiles_findCsvFiles found_files_def)
  have 2: "sorted (csvFiles (snd (findCsvFiles fs st)))" unfolding 1 by simp
  have 3: "set (csvFiles (snd (findCsvFiles fs st))) = Path ` set (found_files fs st)"
    unfolding 1 by simp
  have 4: "length (csvFiles (snd (findCsvFiles fs st))) = length (found_files fs st)"
    unfolding 1 by simp
  have 5: "fst (findCsvFiles fs st) = (found_files fs st \<noteq> [])"
  proof -
    have "fst (findCsvFiles fs st) = (csvFiles (snd (findCsvFiles fs st)) \<noteq> [])"
      by (simp add: findCsvFiles_def Let_def)
    also have "\<dots> = (found_files fs st \<noteq> [])" using 4 by (metis length_0_conv)
    finally show ?thesis .
  qed
  have 6: "found_files fs st = [] \<longrightarrow> findCsvFiles fs st = (False, st\<lparr>csvFiles := []\<rparr>)"
    by (simp add: findCsvFiles_def Let_def found_files_def)
  show ?thesis by (intro conjI) (fact 1, fact 2, fact 3, fact 4, fact 5, fact 6)
qed

lemma found_empty_dir: "found_files (Dir []) (scan_state False) = []"
  by code_simp

lemma found_example_recursive:
  "found_files example_tree (scan_state True)
     = [''/d/b.csv'', ''/d/sub/a.csv'', ''/d/sub/deep/c.csv'']"
  by code_simp

lemma found_example_flat: "found_files example_tree (scan_state False) = [''/d/b.csv'']"
  by code_simp

lemma paths_example_recursive:
  "sort (map Path [''/d/b.csv'', ''/d/sub/a.csv'', ''/d/sub/deep/c.csv''])
     = [[''/'', ''d'', ''b.csv''], [''/'', ''d'', ''sub'', ''a.csv''],
        [''/'', ''d'', ''sub'', ''deep'', ''c.csv'']]"
  by code_simp

theorem findCsvFiles_sorted_by_parts_witness:
  "found_files (Dir []) (scan_state False) = []
   \<and> findCsvFiles (Dir []) (scan_state False) = (False, (scan_state False)\<lparr>csvFiles := []\<rparr>)
   \<and> csvFiles (snd (findCsvFiles example_tree (scan_state True)))
       = [[''/'', ''d'', ''b.csv''], [''/'', ''d'', ''sub'', ''a.csv''],
          [''/'', ''d'', ''sub'', ''deep'', ''c.csv'']]
   \<and> fst (findCsvFiles example_tree (scan_state True)) = True"
proof -
  note e = findCsvFiles_sorted_by_parts[of "Dir []" "scan_state False"]
  note r = findCsvFiles_sorted_by_parts[of example_tree "scan_state True"]
  have 1: "findCsvFiles (Dir []) (scan_state False) = (False, (scan_state False)\<lparr>csvFiles := []\<rparr>)"
    using e found_empty_dir by blast
  have 2: "csvFiles (snd (findCsvFiles example_tree (scan_state True)))
       = [[''/'', ''d'', ''b.csv''], [''/'', ''d'', ''sub'', ''a.csv''],
          [''/'', ''d'', ''sub'', ''deep'', ''c.csv'']]"
    using r[THEN conjunct1] unfolding found_example_recursive paths_example_recursive .
  have 3: "fst (findCsvFiles example_tree (scan_state True)) = True"
    using r found_example_recursive by simp
  show ?thesis by (intro conjI) (fact found_empty_dir, fact 1, fact 2, fact 3)
qed

text \<open>
  The claim as first stated, sorted by the full path as one string, fails: with the
  directories \<open>a.old\<close> and \<open>a\<close> the file under \<open>a\<close> comes first, because the component
  \<open>a\<close> is less than \<open>a.old\<close>, while as strings \<open>/d/a.old/x.csv\<close> is less than
  \<open>/d/a/x.csv\<close>, the dot being less than the slash.
\<close>

theorem findCsvFiles_string_order_counterexample:
  "map path_str (csvFiles (snd (findCsvFiles dotted_tree (scan_state True))))
     = [''/d/a/x.csv'', ''/d/a.old/x.csv'']
   \<and> ''/d/a.old/x.csv'' < ''/d/a/x.csv''
   \<and> \<not> sorted (map path_str (csvFiles (snd (findCsvFiles dotted_tree (scan_state True)))))"
proof -
  have 1: "map path_str (csvFiles (snd (findCsvFiles dotted_tree (scan_state True))))
     = [''/d/a/x.csv'', ''/d/a.old/x.csv'']" by code_simp
  have 2: "''/d/a.old/x.csv'' < ''/d/a/x.csv''" by code_simp
  have 3: "\<not> sorted [''/d/a/x.csv'', ''/d/a.old/x.csv'']" using 2 by simp
  show ?thesis unfolding 1 using 2 3 by simp
qed


text \<open>
  What the recursive search returns, exactly; and the parts of the path of a file that
  lies below a chain of directories of a proper tree, which tell the files apart.
\<close>

lemma rlistdir_chain:
  "(rel, n) \<in> set (rlistdir d) \<Longrightarrow>
     \<exists>ds. ds \<noteq> [] \<and> subdir_at d ds n \<and> list_all (\<lambda>x. \<not> ishidden x) ds \<and> rel = rel_path ds"
  "(rel, n) \<in> set (rlistdir_entries es) \<Longrightarrow>
     \<exists>x c ds. (x, c) \<in> set es \<and> is_dir c \<and> \<not> ishidden x \<and> subdir_at c ds n
              \<and> list_all (\<lambda>x. \<not> ishidden x) ds \<and> rel = rel_path (x # ds)"
proof (induction d and es arbitrary: rel n and rel n rule: rlistdir_rlistdir_entries.induct)
  case 1
  then show ?case by simp
next
  case (2 es)
  from 2(1)[of rel n] 2(2) obtain x c ds where h: "(x, c) \<in> set es" "is_dir c" "\<not> ishidden x"
      "subdir_at c ds n" "list_all (\<lambda>x. \<not> ishidden x) ds" "rel = rel_path (x # ds)"
    by auto
  have "subdir_at (Dir es) (x # ds) n"
    by (rule subdir_at.below[OF _ h(2) h(4)]) (simp add: h(1))
  with h show ?case by (intro exI[of _ "x # ds"]) simp
next
  case 3
  then show ?case by simp
next
  case (4 e es)
  from 4(3) consider
      (a) "is_dir (snd e)" "\<not> ishidden (fst e)" "rel = fst e" "n = snd e"
    | (b) y where "is_dir (snd e)" "\<not> ishidden (fst e)" "(y, n) \<in> set (rlistdir (snd e))"
        "rel = path_join (fst e) y"
    | (c) "(rel, n) \<in> set (rlistdir_entries es)"
    by (auto split: if_splits)
  then show ?case
  proof cases
    case a
    show ?thesis
      by (intro exI[of _ "fst e"] exI[of _ "snd e"] exI[of _ "[]"])
         (simp add: a subdir_at.here)
  next
    case b
    from 4(1)[OF _ b(3)] b(1,2) obtain ds where ds: "ds \<noteq> []" "subdir_at (snd e) ds n"
       "list_all (\<lambda>x. \<not> ishidden x) ds" "y = rel_path ds" by auto
    from ds(1) obtain z zs where z: "ds = z # zs" by (cases ds) auto
    show ?thesis
      by (intro exI[of _ "fst e"] exI[of _ "snd e"] exI[of _ ds])
         (use b ds z in simp)
  next
    case c
    from 4(2)[OF c] show ?thesis by auto
  qed
qed

lemma glob2_chain:
  assumes "(rel, n) \<in> set (glob2 fs)"
  shows "\<exists>ds. subdir_at fs ds n \<and> list_all (\<lambda>x. \<not> ishidden x) ds \<and> rel = rel_path ds"
proof -
  from assms consider "rel = []" "n = fs" | "(rel, n) \<in> set (rlistdir fs)"
    by (auto simp: glob2_def split: if_splits)
  then show ?thesis
  proof cases
    case 1
    then show ?thesis by (intro exI[of _ "[]"]) (simp add: subdir_at.here)
  next
    case 2
    from rlistdir_chain(1)[OF this] show ?thesis by blast
  qed
qed

lemma glob_recursive_set:
  "set (glob_recursive fs src)
     = {path_join (path_join (pattern_dirname src) (rel_path ds)) x | ds d x.
          subdir_at fs ds d \<and> list_all (\<lambda>n. \<not> ishidden n) ds
          \<and> x \<in> fst ` set (entries d) \<and> \<not> ishidden x \<and> fnmatch_csv x}"
proof (intro equalityI subsetI)
  fix p assume "p \<in> set (glob_recursive fs src)"
  then obtain rel d x where r: "(rel, d) \<in> set (glob2 fs)" "x \<in> set (glob1_csv d)"
      "p = path_join (path_join (pattern_dirname src) rel) x"
    unfolding glob_recursive_eq by auto
  from glob2_chain[OF r(1)] obtain ds where
    "subdir_at fs ds d" "list_all (\<lambda>x. \<not> ishidden x) ds" "rel = rel_path ds" by blast
  with r(2,3) show "p \<in> {path_join (path_join (pattern_dirname src) (rel_path ds)) x | ds d x.
          subdir_at fs ds d \<and> list_all (\<lambda>n. \<not> ishidden n) ds
          \<and> x \<in> fst ` set (entries d) \<and> \<not> ishidden x \<and> fnmatch_csv x}"
    unfolding glob1_csv_set by blast
next
  fix p assume "p \<in> {path_join (path_join (pattern_dirname src) (rel_path ds)) x | ds d x.
          subdir_at fs ds d \<and> list_all (\<lambda>n. \<not> ishidden n) ds
          \<and> x \<in> fst ` set (entries d) \<and> \<not> ishidden x \<and> fnmatch_csv x}"
  then obtain ds d x where h: "subdir_at fs ds d" "list_all (\<lambda>n. \<not> ishidden n) ds"
     "x \<in> fst ` set (entries d)" "\<not> ishidden x" "fnmatch_csv x"
     "p = path_join (path_join (pattern_dirname src) (rel_path ds)) x" by blast
  then have "x \<in> set (glob1_csv d)" unfolding glob1_csv_set by simp
  from glob_recursive_any_depth[OF h(1,2) this] h(6) show "p \<in> set (glob_recursive fs src)"
    by simp
qed


lemma split_on_append: "split_on c (u @ c # v) = split_on c u @ split_on c v"
proof (induction u)
  case Nil
  then show ?case by simp
next
  case (Cons a u)
  have ne: "split_on c u \<noteq> []" by (cases u) (simp_all add: Let_def)
  show ?case using Cons ne by (cases "split_on c u") (simp_all add: Let_def)
qed

lemma split_on_none: "c \<notin> set x \<Longrightarrow> split_on c x = [x]"
  by (induction x) (auto simp: Let_def)

lemma components_leading: "components (dropWhile (\<lambda>c. c = CHR ''/'') f) = components f"
  by (induction f) (simp_all add: components_def Let_def)

lemma Path_parts: "Path f = root_part f @ components f"
proof (cases "f \<noteq> [] \<and> hd f = CHR ''/''")
  case True
  have l: "length f - length (dropWhile (\<lambda>c. c = CHR ''/'') f)
             = length (takeWhile (\<lambda>c. c = CHR ''/'') f)"
    using takeWhile_dropWhile_id[of "\<lambda>c. c = CHR ''/''" f]
    by (metis add_diff_cancel_right' length_append)
  have k: "length (takeWhile (\<lambda>c. c = CHR ''/'') f) \<noteq> 0"
    using True by (cases f) simp_all
  show ?thesis
    using True k components_leading[of f]
    by (simp add: Path_def splitroot_def root_part_def Let_def l components_def)
next
  case False
  then have t: "takeWhile (\<lambda>c. c = CHR ''/'') f = []" by (cases f) simp_all
  have sr: "splitroot f = ([], f)" unfolding splitroot_def if_not_P[OF False] ..
  show ?thesis
    by (simp add: Path_def sr root_part_def t components_def)
qed


lemma proper_name_hd: "proper_name x \<Longrightarrow> x \<noteq> [] \<and> hd x \<noteq> CHR ''/'' \<and> last x \<noteq> CHR ''/''"
proof -
  assume p: "proper_name x"
  then have ne: "x \<noteq> []" and ns: "CHR ''/'' \<notin> set x" by (simp_all add: proper_name_def)
  from ne have "hd x \<in> set x" "last x \<in> set x" by simp_all
  with ns ne show ?thesis by metis
qed

lemma components_proper: "proper_name x \<Longrightarrow> components x = [x]"
  by (simp add: components_def split_on_none proper_name_def)

lemma components_slash: "components (a @ ''/'') = components a"
  using split_on_append[of "CHR ''/''" a "[]"] by (simp add: components_def)

lemma components_sep: "proper_name x \<Longrightarrow> components (a @ CHR ''/'' # x) = components a @ [x]"
  using split_on_append[of "CHR ''/''" a x] components_proper[of x]
  by (simp add: components_def)

lemma components_join:
  assumes "proper_name x"
  shows "components (path_join a x) = components a @ [x]"
proof -
  note h = proper_name_hd[OF assms]
  show ?thesis
  proof (cases "a = []")
    case True
    then show ?thesis using h components_proper[OF assms]
      by (simp add: path_join_def components_def)
  next
    case ne: False
    show ?thesis
    proof (cases "last a = CHR ''/''")
      case True
      then have a: "a = butlast a @ ''/''" using ne by (metis append_butlast_last_id)
      have "path_join a x = a @ x" using h ne True by (simp add: path_join_def)
      also have "\<dots> = (butlast a @ ''/'') @ x" using a by simp
      finally have "path_join a x = butlast a @ CHR ''/'' # x" by simp
      then have "components (path_join a x) = components (butlast a) @ [x]"
        using components_sep[OF assms] by simp
      moreover have "components a = components (butlast a)"
        using components_slash[of "butlast a"] a by simp
      ultimately show ?thesis by simp
    next
      case False
      then have "path_join a x = a @ CHR ''/'' # x" using h ne by (simp add: path_join_def)
      then show ?thesis using components_sep[OF assms] by simp
    qed
  qed
qed

lemma takeWhile_slash_append:
  assumes "y = [] \<or> hd y \<noteq> CHR ''/'' \<or> (\<exists>c \<in> set a. c \<noteq> CHR ''/'')"
    and "(\<forall>c \<in> set a. c = CHR ''/'') \<longrightarrow> y = [] \<or> hd y \<noteq> CHR ''/''"
  shows "takeWhile (\<lambda>c. c = CHR ''/'') (a @ y) = takeWhile (\<lambda>c. c = CHR ''/'') a"
proof (cases "\<forall>c \<in> set a. c = CHR ''/''")
  case True
  then have "takeWhile (\<lambda>c. c = CHR ''/'') (a @ y) = a @ takeWhile (\<lambda>c. c = CHR ''/'') y"
    by (simp add: takeWhile_append2)
  moreover have "takeWhile (\<lambda>c. c = CHR ''/'') y = []"
    using assms(2) True by (cases y) auto
  moreover have "takeWhile (\<lambda>c. c = CHR ''/'') a = a" using True by simp
  ultimately show ?thesis by (simp only: append_Nil2)
next
  case False
  then obtain c where "c \<in> set a" "\<not> c = CHR ''/''" by blast
  then show ?thesis by (rule takeWhile_append1)
qed

lemma root_part_join:
  assumes "proper_name x"
  shows "root_part (path_join a x) = root_part a"
proof -
  note h = proper_name_hd[OF assms]
  have "takeWhile (\<lambda>c. c = CHR ''/'') (path_join a x) = takeWhile (\<lambda>c. c = CHR ''/'') a"
  proof (cases "a = [] \<or> last a = CHR ''/''")
    case True
    then have "path_join a x = a @ x" using h by (simp add: path_join_def)
    then show ?thesis using takeWhile_slash_append[of x a] h by simp
  next
    case False
    then have pj: "path_join a x = a @ (CHR ''/'' # x)" using h by (simp add: path_join_def)
    from False have "last a \<in> set a" "last a \<noteq> CHR ''/''" by simp_all
    then have "\<exists>c \<in> set a. c \<noteq> CHR ''/''" by blast
    then show ?thesis unfolding pj using takeWhile_slash_append[of "CHR ''/'' # x" a] by auto
  qed
  then show ?thesis by (simp add: root_part_def)
qed

lemma Path_join: "proper_name x \<Longrightarrow> Path (path_join a x) = Path a @ [x]"
  by (simp add: Path_parts components_join root_part_join)

lemma Path_join_empty: "Path (path_join a []) = Path a"
proof (cases "a = [] \<or> last a = CHR ''/''")
  case True
  then show ?thesis by (auto simp: path_join_def)
next
  case False
  then have pj: "path_join a [] = a @ ''/''" by (simp add: path_join_def)
  from False have "last a \<in> set a" "last a \<noteq> CHR ''/''" by simp_all
  then have "\<exists>c \<in> set a. c \<noteq> CHR ''/''" by blast
  then have "takeWhile (\<lambda>c. c = CHR ''/'') (a @ ''/'') = takeWhile (\<lambda>c. c = CHR ''/'') a"
    using takeWhile_slash_append[of "''/''" a] by auto
  then show ?thesis unfolding pj by (simp add: Path_parts root_part_def components_slash)
qed

lemma rel_path_proper:
  "ds \<noteq> [] \<Longrightarrow> list_all proper_name ds
   \<Longrightarrow> rel_path ds \<noteq> [] \<and> hd (rel_path ds) \<noteq> CHR ''/''"
proof (induction ds rule: rel_path.induct)
  case 1
  then show ?case by simp
next
  case (2 x)
  then show ?case using proper_name_hd[of x] by simp
next
  case (3 x y ys)
  then have r: "rel_path (y # ys) \<noteq> []" "hd (rel_path (y # ys)) \<noteq> CHR ''/''" by simp_all
  from 3 have h: "x \<noteq> []" "hd x \<noteq> CHR ''/''" "last x \<noteq> CHR ''/''"
    using proper_name_hd[of x] by simp_all
  show ?case using r h by (simp add: path_join_def)
qed

lemma path_join_assoc:
  assumes "proper_name x" "r \<noteq> []" "hd r \<noteq> CHR ''/''"
  shows "path_join a (path_join x r) = path_join (path_join a x) r"
proof -
  note h = proper_name_hd[OF assms(1)]
  have xr: "path_join x r = x @ ''/'' @ r" using h assms(2,3) by (simp add: path_join_def)
  show ?thesis
  proof (cases "a = [] \<or> last a = CHR ''/''")
    case True
    then have "path_join a x = a @ x" using h by (simp add: path_join_def)
    moreover have "path_join a (x @ ''/'' @ r) = a @ x @ ''/'' @ r"
      using True h by (simp add: path_join_def)
    moreover have "path_join (a @ x) r = a @ x @ ''/'' @ r"
      using h assms(2,3) by (simp add: path_join_def)
    ultimately show ?thesis unfolding xr by simp
  next
    case False
    then have "path_join a x = a @ ''/'' @ x" using h by (simp add: path_join_def)
    moreover have "path_join a (x @ ''/'' @ r) = a @ ''/'' @ x @ ''/'' @ r"
      using False h by (simp add: path_join_def)
    moreover have "path_join (a @ ''/'' @ x) r = a @ ''/'' @ x @ ''/'' @ r"
      using h assms(2,3) by (simp add: path_join_def)
    ultimately show ?thesis unfolding xr by simp
  qed
qed

lemma Path_rel_path:
  "list_all proper_name ds \<Longrightarrow> Path (path_join a (rel_path ds)) = Path a @ ds"
proof (induction ds arbitrary: a rule: rel_path.induct)
  case 1
  then show ?case by (simp add: Path_join_empty)
next
  case (2 x)
  then show ?case by (simp add: Path_join)
next
  case (3 x y ys)
  then have px: "proper_name x" and pr: "list_all proper_name (y # ys)" by simp_all
  from rel_path_proper[OF _ pr] have r: "rel_path (y # ys) \<noteq> []" "hd (rel_path (y # ys)) \<noteq> CHR ''/''"
    by simp_all
  have "Path (path_join a (rel_path (x # y # ys)))
          = Path (path_join (path_join a x) (rel_path (y # ys)))"
    using path_join_assoc[OF px r] by simp
  also have "\<dots> = Path (path_join a x) @ (y # ys)" by (rule 3(1)[OF pr])
  finally show ?case using Path_join[OF px] by simp
qed

lemma Path_of_found:
  assumes "list_all proper_name ds" "proper_name x"
  shows "Path (path_join (path_join a (rel_path ds)) x) = Path a @ ds @ [x]"
  using Path_join[OF assms(2)] Path_rel_path[OF assms(1)] by simp

lemma proper_entries_member:
  "proper_entries es \<Longrightarrow> (x, c) \<in> set es \<Longrightarrow> proper_name x \<and> proper_tree c"
  by (induction es) auto

lemma proper_tree_entry:
  "proper_tree d \<Longrightarrow> (x, c) \<in> set (entries d) \<Longrightarrow> proper_name x \<and> proper_tree c"
  by (cases d) (auto dest: proper_entries_member)

lemma subdir_at_proper:
  "subdir_at fs ds d \<Longrightarrow> proper_tree fs \<Longrightarrow> list_all proper_name ds \<and> proper_tree d"
proof (induction rule: subdir_at.induct)
  case (here d)
  then show ?case by simp
next
  case (below x c d xs e)
  from proper_tree_entry[OF below.prems below.hyps(1)] below.IH show ?case by simp
qed

lemma hidden_not_found:
  assumes "proper_tree fs" "subdir_at fs ds d" "list_ex ishidden ds" "x \<in> fst ` set (entries d)"
  shows "Path (path_join (path_join (pattern_dirname src) (rel_path ds)) x)
           \<notin> Path ` set (glob_recursive fs src)"
proof
  let ?D = "pattern_dirname src"
  assume "Path (path_join (path_join ?D (rel_path ds)) x) \<in> Path ` set (glob_recursive fs src)"
  then obtain ds' d' x' where h: "subdir_at fs ds' d'" "list_all (\<lambda>n. \<not> ishidden n) ds'"
      "x' \<in> fst ` set (entries d')"
      "Path (path_join (path_join ?D (rel_path ds)) x)
         = Path (path_join (path_join ?D (rel_path ds')) x')"
    unfolding glob_recursive_set by blast
  from subdir_at_proper[OF assms(2,1)] assms(4)
  have p: "list_all proper_name ds" "proper_name x" by (auto dest: proper_tree_entry)
  from subdir_at_proper[OF h(1) assms(1)] h(3)
  have p': "list_all proper_name ds'" "proper_name x'" by (auto dest: proper_tree_entry)
  from h(4) have "ds @ [x] = ds' @ [x']"
    unfolding Path_of_found[OF p] Path_of_found[OF p'] by simp
  then have "ds = ds'" by simp
  with assms(3) h(2) show False by (auto simp: list_ex_iff list_all_iff)
qed


lemma flat_not_below:
  assumes "proper_tree fs" "subdir_at fs ds d" "ds \<noteq> []" "x \<in> fst ` set (entries d)"
  shows "Path (path_join (path_join (pattern_dirname src) (rel_path ds)) x)
           \<notin> Path ` set (glob_flat fs src)"
proof
  let ?D = "pattern_dirname src"
  assume "Path (path_join (path_join ?D (rel_path ds)) x) \<in> Path ` set (glob_flat fs src)"
  then obtain x' where h: "x' \<in> fst ` set (entries fs)"
      "Path (path_join (path_join ?D (rel_path ds)) x) = Path (path_join ?D x')"
    unfolding glob_flat_eq by (auto simp: glob1_csv_set)
  from subdir_at_proper[OF assms(2,1)] assms(4)
  have p: "list_all proper_name ds" "proper_name x" by (auto dest: proper_tree_entry)
  from h(1) assms(1) have p': "proper_name x'" by (auto dest: proper_tree_entry)
  from h(2) have "ds @ [x] = [x']"
    unfolding Path_of_found[OF p] Path_join[OF p'] by simp
  with assms(3) show False by (cases ds) simp_all
qed

text \<open>
  Claim C7, as amended. For a source directory whose text holds no glob metacharacter:
  without recursion the files found are exactly the direct entries of the directory
  whose names end in \<open>.csv\<close> and do not start with a dot, and in a proper tree no
  file of a subdirectory is among them; with recursion the files found are exactly
  such entries of the directories that are reached from the source directory through
  names that do not start with a dot, at any depth, and in a proper tree no file below
  a directory whose name starts with a dot is among them; and what is found without
  recursion is found with recursion.
\<close>

theorem discovery_recursive_flag:
  assumes "\<not> has_magic (sourceDirectory st)"
  shows "set (csvFiles (snd (findCsvFiles fs (st\<lparr>includeSubdirectories := False\<rparr>))))
           = (\<lambda>x. Path (path_join (pattern_dirname (sourceDirectory st)) x))
               ` {x \<in> fst ` set (entries fs). \<not> ishidden x \<and> fnmatch_csv x}
         \<and> (proper_tree fs \<longrightarrow>
              (\<forall>ds d x. subdir_at fs ds d \<and> ds \<noteq> [] \<and> x \<in> fst ` set (entries d)
                 \<longrightarrow> Path (path_join (path_join (pattern_dirname (sourceDirectory st))
                                        (rel_path ds)) x)
                       \<notin> set (csvFiles (snd (findCsvFiles fs (st\<lparr>includeSubdirectories := False\<rparr>))))))
         \<and> set (csvFiles (snd (findCsvFiles fs (st\<lparr>includeSubdirectories := True\<rparr>))))
             = {Path (path_join (path_join (pattern_dirname (sourceDirectory st)) (rel_path ds)) x)
                  | ds d x. subdir_at fs ds d \<and> list_all (\<lambda>n. \<not> ishidden n) ds
                            \<and> x \<in> fst ` set (entries d) \<and> \<not> ishidden x \<and> fnmatch_csv x}
         \<and> (proper_tree fs \<longrightarrow>
              (\<forall>ds d x. subdir_at fs ds d \<and> list_ex ishidden ds \<and> x \<in> fst ` set (entries d)
                 \<longrightarrow> Path (path_join (path_join (pattern_dirname (sourceDirectory st))
                                        (rel_path ds)) x)
                       \<notin> set (csvFiles (snd (findCsvFiles fs (st\<lparr>includeSubdirectories := True\<rparr>))))))
         \<and> set (csvFiles (snd (findCsvFiles fs (st\<lparr>includeSubdirectories := False\<rparr>))))
             \<subseteq> set (csvFiles (snd (findCsvFiles fs (st\<lparr>includeSubdirectories := True\<rparr>))))"
proof -
  let ?src = "sourceDirectory st"
  have flat: "set (csvFiles (snd (findCsvFiles fs (st\<lparr>includeSubdirectories := False\<rparr>))))
                = Path ` set (glob_flat fs ?src)"
    by (simp add: csvFiles_findCsvFiles)
  have rec: "set (csvFiles (snd (findCsvFiles fs (st\<lparr>includeSubdirectories := True\<rparr>))))
                = Path ` set (glob_recursive fs ?src)"
    by (simp add: csvFiles_findCsvFiles)
  have 1: "set (csvFiles (snd (findCsvFiles fs (st\<lparr>includeSubdirectories := False\<rparr>))))
           = (\<lambda>x. Path (path_join (pattern_dirname ?src) x))
               ` {x \<in> fst ` set (entries fs). \<not> ishidden x \<and> fnmatch_csv x}"
    unfolding flat glob_flat_eq by (simp add: glob1_csv_set image_image)
  have 2: "proper_tree fs \<longrightarrow>
              (\<forall>ds d x. subdir_at fs ds d \<and> ds \<noteq> [] \<and> x \<in> fst ` set (entries d)
                 \<longrightarrow> Path (path_join (path_join (pattern_dirname ?src) (rel_path ds)) x)
                       \<notin> set (csvFiles (snd (findCsvFiles fs (st\<lparr>includeSubdirectories := False\<rparr>)))))"
    unfolding flat using flat_not_below[of fs _ _ _ ?src] by blast
  have 3: "set (csvFiles (snd (findCsvFiles fs (st\<lparr>includeSubdirectories := True\<rparr>))))
             = {Path (path_join (path_join (pattern_dirname ?src) (rel_path ds)) x)
                  | ds d x. subdir_at fs ds d \<and> list_all (\<lambda>n. \<not> ishidden n) ds
                            \<and> x \<in> fst ` set (entries d) \<and> \<not> ishidden x \<and> fnmatch_csv x}"
    unfolding rec glob_recursive_set by blast
  have 4: "proper_tree fs \<longrightarrow>
              (\<forall>ds d x. subdir_at fs ds d \<and> list_ex ishidden ds \<and> x \<in> fst ` set (entries d)
                 \<longrightarrow> Path (path_join (path_join (pattern_dirname ?src) (rel_path ds)) x)
                       \<notin> set (csvFiles (snd (findCsvFiles fs (st\<lparr>includeSubdirectories := True\<rparr>)))))"
    unfolding rec using hidden_not_found[of fs _ _ _ ?src] by blast
  have 5: "set (csvFiles (snd (findCsvFiles fs (st\<lparr>includeSubdirectories := False\<rparr>))))
             \<subseteq> set (csvFiles (snd (findCsvFiles fs (st\<lparr>includeSubdirectories := True\<rparr>))))"
    unfolding flat rec using glob_flat_subset[of fs ?src] by (rule image_mono)
  show ?thesis by (intro conjI) (fact 1, fact 2, fact 3, fact 4, fact 5)
qed

lemma example_flat_paths:
  "csvFiles (snd (findCsvFiles example_tree ((scan_state False)\<lparr>includeSubdirectories := False\<rparr>)))
     = [[''/'', ''d'', ''b.csv'']]"
  by code_simp

lemma example_recursive_paths:
  "csvFiles (snd (findCsvFiles example_tree ((scan_state False)\<lparr>includeSubdirectories := True\<rparr>)))
     = [[''/'', ''d'', ''b.csv''], [''/'', ''d'', ''sub'', ''a.csv''],
        [''/'', ''d'', ''sub'', ''deep'', ''c.csv'']]"
  by code_simp

lemma example_no_magic: "\<not> has_magic (sourceDirectory (scan_state False))"
  by code_simp

lemma example_deep:
  "subdir_at example_tree [''sub'', ''deep''] (Dir [(''c.csv'', File)])"
  unfolding example_tree_def
  by (rule subdir_at.below[where c = "Dir [(''a.csv'', File), (''deep'', Dir [(''c.csv'', File)])]"],
      simp, simp, rule subdir_at.below[where c = "Dir [(''c.csv'', File)]"], simp, simp,
      rule subdir_at.here)

lemma example_proper: "proper_tree example_tree"
  by code_simp

lemma example_sub:
  "subdir_at example_tree [''sub'']
     (Dir [(''a.csv'', File), (''deep'', Dir [(''c.csv'', File)])])"
  unfolding example_tree_def
  by (rule subdir_at.below[where c = "Dir [(''a.csv'', File), (''deep'', Dir [(''c.csv'', File)])]"],
      simp, simp, rule subdir_at.here)

lemma example_cache:
  "subdir_at example_tree [''.cache''] (Dir [(''x.csv'', File)])"
  unfolding example_tree_def
  by (rule subdir_at.below[where c = "Dir [(''x.csv'', File)]"], simp, simp, rule subdir_at.here)

theorem discovery_recursive_flag_witness:
  "\<not> has_magic (sourceDirectory (scan_state False))
   \<and> proper_tree example_tree
   \<and> csvFiles (snd (findCsvFiles example_tree ((scan_state False)\<lparr>includeSubdirectories := False\<rparr>)))
       = [[''/'', ''d'', ''b.csv'']]
   \<and> csvFiles (snd (findCsvFiles example_tree ((scan_state False)\<lparr>includeSubdirectories := True\<rparr>)))
       = [[''/'', ''d'', ''b.csv''], [''/'', ''d'', ''sub'', ''a.csv''],
          [''/'', ''d'', ''sub'', ''deep'', ''c.csv'']]
   \<and> subdir_at example_tree [''sub'', ''deep''] (Dir [(''c.csv'', File)])
   \<and> Path (path_join (path_join (pattern_dirname ''/d'') (rel_path [''sub'', ''deep''])) ''c.csv'')
       = [''/'', ''d'', ''sub'', ''deep'', ''c.csv'']
   \<and> [''/'', ''d'', ''sub'', ''deep'', ''c.csv'']
       \<in> set (csvFiles (snd (findCsvFiles example_tree
                  ((scan_state False)\<lparr>includeSubdirectories := True\<rparr>))))
   \<and> subdir_at example_tree [''sub'']
        (Dir [(''a.csv'', File), (''deep'', Dir [(''c.csv'', File)])])
   \<and> Path (path_join (path_join (pattern_dirname ''/d'') (rel_path [''sub''])) ''a.csv'')
       = [''/'', ''d'', ''sub'', ''a.csv'']
   \<and> [''/'', ''d'', ''sub'', ''a.csv'']
       \<notin> set (csvFiles (snd (findCsvFiles example_tree
                  ((scan_state False)\<lparr>includeSubdirectories := False\<rparr>))))
   \<and> subdir_at example_tree [''.cache''] (Dir [(''x.csv'', File)])
   \<and> list_ex ishidden [''.cache'']
   \<and> Path (path_join (path_join (pattern_dirname ''/d'') (rel_path [''.cache''])) ''x.csv'')
       = [''/'', ''d'', ''.cache'', ''x.csv'']
   \<and> [''/'', ''d'', ''.cache'', ''x.csv'']
       \<notin> set (csvFiles (snd (findCsvFiles example_tree
                  ((scan_state False)\<lparr>includeSubdirectories := True\<rparr>))))
   \<and> set (csvFiles (snd (findCsvFiles example_tree
                  ((scan_state False)\<lparr>includeSubdirectories := False\<rparr>))))
       \<subseteq> set (csvFiles (snd (findCsvFiles example_tree
                  ((scan_state False)\<lparr>includeSubdirectories := True\<rparr>))))"
proof -
  note t = discovery_recursive_flag[OF example_no_magic, of example_tree]
  have src: "sourceDirectory (scan_state False) = ''/d''" by (simp add: scan_state_def)
  have h: "list_ex ishidden [''.cache'']" by code_simp
  have pa: "Path (path_join (path_join (pattern_dirname ''/d'') (rel_path [''sub''])) ''a.csv'')
       = [''/'', ''d'', ''sub'', ''a.csv'']" by code_simp
  have px: "Path (path_join (path_join (pattern_dirname ''/d'') (rel_path [''.cache''])) ''x.csv'')
       = [''/'', ''d'', ''.cache'', ''x.csv'']" by code_simp
  have pc: "Path (path_join (path_join (pattern_dirname ''/d'') (rel_path [''sub'', ''deep''])) ''c.csv'')
       = [''/'', ''d'', ''sub'', ''deep'', ''c.csv'']" by code_simp
  have "Path (path_join (path_join (pattern_dirname (sourceDirectory (scan_state False)))
                (rel_path [''sub'', ''deep''])) ''c.csv'')
       \<in> set (csvFiles (snd (findCsvFiles example_tree
                  ((scan_state False)\<lparr>includeSubdirectories := True\<rparr>))))"
    unfolding t[THEN conjunct2, THEN conjunct2, THEN conjunct1]
    using example_deep by (intro CollectI exI[of _ "[''sub'', ''deep'']"]
        exI[of _ "Dir [(''c.csv'', File)]"] exI[of _ "''c.csv''"])
      (simp add: ishidden_def fnmatch_csv_def)
  then have mc: "[''/'', ''d'', ''sub'', ''deep'', ''c.csv'']
       \<in> set (csvFiles (snd (findCsvFiles example_tree
                  ((scan_state False)\<lparr>includeSubdirectories := True\<rparr>))))"
    unfolding src pc .
  have na: "[''/'', ''d'', ''sub'', ''a.csv'']
       \<notin> set (csvFiles (snd (findCsvFiles example_tree
                  ((scan_state False)\<lparr>includeSubdirectories := False\<rparr>))))"
    using t[THEN conjunct2, THEN conjunct1, rule_format, OF example_proper,
            of "[''sub'']" "Dir [(''a.csv'', File), (''deep'', Dir [(''c.csv'', File)])]" "''a.csv''"]
      example_sub
    unfolding src pa by simp
  have nx: "[''/'', ''d'', ''.cache'', ''x.csv'']
       \<notin> set (csvFiles (snd (findCsvFiles example_tree
                  ((scan_state False)\<lparr>includeSubdirectories := True\<rparr>))))"
    using t[THEN conjunct2, THEN conjunct2, THEN conjunct2, THEN conjunct1, rule_format,
            OF example_proper, of "[''.cache'']" "Dir [(''x.csv'', File)]" "''x.csv''"]
      example_cache h
    unfolding src px by simp
  show ?thesis
    by (intro conjI) (fact example_no_magic, fact example_proper, fact example_flat_paths,
        fact example_recursive_paths, fact example_deep, fact pc, fact mc, fact example_sub,
        fact pa, fact na, fact example_cache,
        fact h, fact px, fact nx,
        fact t[THEN conjunct2, THEN conjunct2, THEN conjunct2, THEN conjunct2])
qed

text \<open>
  The claim as first stated, matches at any depth, fails under a directory whose name
  starts with a dot: \<open>x.csv\<close> in \<open>.cache\<close> matches the pattern and is not found.
\<close>

theorem hidden_directory_counterexample:
  "subdir_at hidden_tree [''.cache''] (Dir [(''x.csv'', File)])
   \<and> (''x.csv'', File) \<in> set (entries (Dir [(''x.csv'', File)]))
   \<and> fnmatch_csv ''x.csv'' \<and> \<not> ishidden ''x.csv''
   \<and> \<not> has_magic (sourceDirectory (scan_state True))
   \<and> csvFiles (snd (findCsvFiles hidden_tree (scan_state True))) = []
   \<and> fst (findCsvFiles hidden_tree (scan_state True)) = False"
proof -
  have 1: "subdir_at hidden_tree [''.cache''] (Dir [(''x.csv'', File)])"
    unfolding hidden_tree_def
    by (rule subdir_at.below[where c = "Dir [(''x.csv'', File)]"], simp, simp, rule subdir_at.here)
  have 2: "(''x.csv'', File) \<in> set (entries (Dir [(''x.csv'', File)]))" by simp
  have 3: "fnmatch_csv ''x.csv''" by code_simp
  have 4: "\<not> ishidden ''x.csv''" by code_simp
  have 5: "\<not> has_magic (sourceDirectory (scan_state True))" by code_simp
  have 6: "csvFiles (snd (findCsvFiles hidden_tree (scan_state True))) = []" by code_simp
  have 7: "fst (findCsvFiles hidden_tree (scan_state True)) = False" by code_simp
  show ?thesis by (intro conjI) (fact 1, fact 2, fact 3, fact 4, fact 5, fact 6, fact 7)
qed

section \<open>The rows that consolidation builds\<close>

text \<open>
  Two facts about every consolidated dataset. Under a column name a row holds a string
  or \<open>None\<close>, never a list, so the hypothesis made for duplicate detection holds after
  \<open>consolidateFiles\<close>. And the only key of a row that can lie outside \<open>allHeaders\<close> is
  \<open>None\<close>, the key under which \<open>csv.DictReader\<close> stores the surplus fields of a record
  longer than its header.
\<close>

lemma upds_value_in_set: "(Map.empty(ks [\<mapsto>] vs)) k = Some v \<Longrightarrow> v \<in> set vs"
proof -
  assume "(Map.empty(ks [\<mapsto>] vs)) k = Some v"
  then have "map_of (rev (zip ks vs)) k = Some v" by (simp add: map_upds_def)
  then have "(k, v) \<in> set (zip ks vs)" using map_of_SomeD by fastforce
  then show ?thesis by (rule set_zip_rightD)
qed

lemma dict_zip_hashable: "hashable (row_get (dict_zip ks vs) k)"
proof (cases "dict_zip ks vs (KStr k)")
  case None
  then show ?thesis by (simp add: row_get_def)
next
  case (Some v)
  then have "v \<in> set (map VStr vs)" unfolding dict_zip_upds by (rule upds_value_in_set)
  then show ?thesis using Some by (auto simp: row_get_def)
qed

lemma DictReader_row_hashable: "hashable (row_get (DictReader_row fieldnames r) k)"
proof (cases "length fieldnames < length r")
  case True
  then have "row_get (DictReader_row fieldnames r) k = row_get (dict_zip fieldnames r) k"
    by (simp add: DictReader_row_def Let_def row_get_def)
  then show ?thesis by (simp add: dict_zip_hashable)
next
  case False
  then have le: "length r \<le> length fieldnames" by simp
  show ?thesis
  proof (cases "DictReader_row fieldnames r (KStr k)")
    case None
    then show ?thesis by (simp add: row_get_def)
  next
    case (Some v)
    then have "v \<in> set (map VStr r @ replicate (length fieldnames - length r) VNone)"
      unfolding DictReader_row_short[OF le] by (rule upds_value_in_set)
    then show ?thesis using Some by (auto simp: row_get_def)
  qed
qed

lemma rowDict_hashable: "hashable (row_get (rowDict (column_headers n) n r) k)"
  by (simp add: rowDict_dict_zip[OF length_column_headers] dict_zip_hashable)

lemma readCsvFile_str_cells: "list_all str_cells (fst (readCsvFile csv file))"
proof (cases "file")
  case (Inl e)
  then show ?thesis by (simp add: readCsvFile_def readCsvFile_try_def)
next
  case (Inr content)
  show ?thesis
  proof (cases "strip content = []")
    case True
    with Inr show ?thesis by (simp add: readCsvFile_def readCsvFile_try_def)
  next
    case ne: False
    show ?thesis
    proof (cases "reader csv (detect_dialect csv content) content")
      case (Inl e)
      with Inr ne show ?thesis by (simp add: readCsvFile_def readCsvFile_try_def)
    next
      case r: (Inr rows)
      show ?thesis
        unfolding Inr readCsvFile_parsed[OF ne r]
        by (cases rows)
           (simp_all add: list_all_iff str_cells_def DictReader_rows_def
              DictReader_row_hashable rowDict_hashable)
    qed
  qed
qed

lemma consolidate_file_str_cells:
  assumes "list_all str_cells (consolidatedData st)"
  shows "list_all str_cells (consolidatedData (consolidate_file csv open_read st f))"
  using assms readCsvFile_str_cells[of csv "open_read f"]
  by (cases "readCsvFile csv (open_read f)") (simp add: consolidate_file_def)

lemma consolidateFiles_str_cells:
  assumes "list_all str_cells (consolidatedData st)"
  shows "list_all str_cells (consolidatedData (snd (consolidateFiles csv open_read st)))"
proof -
  have "\<And>st. list_all str_cells (consolidatedData st) \<Longrightarrow>
          list_all str_cells (consolidatedData (foldl (consolidate_file csv open_read) st fs))" for fs
    by (induction fs) (simp_all add: consolidate_file_str_cells)
  from this[OF assms] show ?thesis by (simp add: consolidateFiles_def Let_def)
qed


lemma dom_DictReader_row: "dom (DictReader_row fieldnames r) \<subseteq> insert KNone (KStr ` set fieldnames)"
proof (cases "length fieldnames < length r")
  case True
  then show ?thesis by (simp add: dom_DictReader_row_long)
next
  case False
  then have "length r \<le> length fieldnames" by simp
  then show ?thesis by (simp add: dom_DictReader_row_short subset_insertI)
qed

lemma dom_rowDict_subset: "dom (rowDict (column_headers n) n r) \<subseteq> KStr ` set (column_headers n)"
proof -
  have "set (column_headers (min (length r) n)) \<subseteq> set (column_headers n)"
    unfolding take_column_headers[symmetric] by (rule set_take_subset)
  then show ?thesis unfolding dom_rowDict_columns by (rule image_mono)
qed

lemma readCsvFile_keys:
  "list_all (\<lambda>r. dom r \<subseteq> insert KNone (KStr ` set (fst (snd (readCsvFile csv file)))))
     (fst (readCsvFile csv file))"
proof (cases "file")
  case (Inl e)
  then show ?thesis by (simp add: readCsvFile_def readCsvFile_try_def)
next
  case (Inr content)
  show ?thesis
  proof (cases "strip content = []")
    case True
    with Inr show ?thesis by (simp add: readCsvFile_def readCsvFile_try_def)
  next
    case ne: False
    show ?thesis
    proof (cases "reader csv (detect_dialect csv content) content")
      case (Inl e)
      with Inr ne show ?thesis by (simp add: readCsvFile_def readCsvFile_try_def)
    next
      case r: (Inr rows)
      have k: "\<And>n r. dom (rowDict (column_headers n) n r)
                      \<subseteq> insert KNone (KStr ` set (column_headers n))"
        using dom_rowDict_subset by blast
      show ?thesis
      proof (cases rows)
        case Nil
        then show ?thesis unfolding Inr readCsvFile_parsed[OF ne r] by simp
      next
        case (Cons first rest)
        show ?thesis
        proof (cases "first \<noteq> [] \<and> filter (\<lambda>r. r \<noteq> []) rest \<noteq> []")
          case True
          then show ?thesis unfolding Inr readCsvFile_parsed[OF ne r] Cons
            by (simp add: list_all_iff DictReader_rows_def dom_DictReader_row)
        next
          case False
          have "readCsvFile csv (Inr content)
                  = (map (rowDict (column_headers (length first)) (length first))
                       (filter (\<lambda>r. r \<noteq> []) rows),
                     column_headers (length first), True)"
            unfolding readCsvFile_parsed[OF ne r] Cons list.case if_not_P[OF False] ..
          then show ?thesis unfolding Inr
            by (simp add: list_all_iff k)
        qed
      qed
    qed
  qed
qed

lemma consolidate_file_keys:
  assumes "list_all (\<lambda>r. dom r \<subseteq> insert KNone (KStr ` fset (allHeaders st))) (consolidatedData st)"
  shows "list_all (\<lambda>r. dom r \<subseteq> insert KNone
                        (KStr ` fset (allHeaders (consolidate_file csv open_read st f))))
           (consolidatedData (consolidate_file csv open_read st f))"
proof (cases "readCsvFile csv (open_read f)")
  case (fields data headers success)
  with readCsvFile_keys[of csv "open_read f"]
  have k: "list_all (\<lambda>r. dom r \<subseteq> insert KNone (KStr ` set headers)) data" by simp
  show ?thesis
  proof (cases "success \<and> data \<noteq> []")
    case True
    then show ?thesis using assms k fields
      by (auto simp: consolidate_file_def list_all_iff fset_of_list.rep_eq)
  next
    case False
    then show ?thesis using assms fields by (auto simp: consolidate_file_def)
  qed
qed

lemma consolidateFiles_string_keys:
  assumes "list_all (\<lambda>r. dom r \<subseteq> insert KNone (KStr ` fset (allHeaders st))) (consolidatedData st)"
  shows "list_all
           (\<lambda>r. dom r \<subseteq> insert KNone
                   (KStr ` fset (allHeaders (snd (consolidateFiles csv open_read st)))))
           (consolidatedData (snd (consolidateFiles csv open_read st)))"
proof -
  have "\<And>st. list_all (\<lambda>r. dom r \<subseteq> insert KNone (KStr ` fset (allHeaders st)))
                (consolidatedData st) \<Longrightarrow>
          list_all (\<lambda>r. dom r \<subseteq> insert KNone
               (KStr ` fset (allHeaders (foldl (consolidate_file csv open_read) st fs))))
            (consolidatedData (foldl (consolidate_file csv open_read) st fs))" for fs
    by (induction fs) (simp_all add: consolidate_file_keys)
  from this[OF assms] show ?thesis by (simp add: consolidateFiles_def Let_def)
qed

section \<open>Duplicate detection\<close>

lemma spec_identifier_first_id:
  "(case filter (\<lambda>s. s \<noteq> [])
          (List.map_filter (\<lambda>k. case r (KStr k) of Some (VStr s) \<Rightarrow> Some s | _ \<Rightarrow> None) ks) of
      [] \<Rightarrow> None | s # _ \<Rightarrow> Some s) = first_id (map (row_get r) ks)"
proof (induction ks)
  case Nil
  show ?case by (simp add: List.map_filter_def)
next
  case (Cons k ks)
  show ?case
  proof (cases "r (KStr k)")
    case None
    then show ?thesis using Cons by (simp add: List.map_filter_def row_get_def)
  next
    case (Some v)
    then show ?thesis using Cons
      by (cases v; cases "case v of VStr s \<Rightarrow> s | _ \<Rightarrow> []")
         (simp_all add: List.map_filter_def row_get_def)
  qed
qed

lemma py_or_first_id:
  assumes "hashable a" "hashable b" "hashable c"
  shows "(if truthy (py_or (py_or a b) c) then [py_or (py_or a b) c] else [])
         = map VStr (case first_id [a, b, c] of None \<Rightarrow> [] | Some s \<Rightarrow> [s])"
proof -
  have one: "\<And>v. hashable v \<Longrightarrow> truthy v \<Longrightarrow> \<exists>x xs. v = VStr (x # xs)"
    subgoal for v by (cases v; cases "case v of VStr s \<Rightarrow> s | _ \<Rightarrow> []") simp_all
    done
  have none: "\<And>v vs. \<not> truthy v \<Longrightarrow> first_id (v # vs) = first_id vs"
    subgoal for v vs by (cases v; cases "case v of VStr s \<Rightarrow> s | _ \<Rightarrow> []") simp_all
    done
  show ?thesis
  proof (cases "truthy a")
    case True
    with one[OF assms(1)] show ?thesis by (auto simp: py_or_def)
  next
    case na: False
    show ?thesis
    proof (cases "truthy b")
      case True
      with one[OF assms(2)] na none[OF na] show ?thesis by (auto simp: py_or_def)
    next
      case nb: False
      show ?thesis
      proof (cases "truthy c")
        case True
        with one[OF assms(3)] na nb none[OF na] none[OF nb] show ?thesis
          by (auto simp: py_or_def)
      next
        case False
        with na nb none[OF na] none[OF nb] none[OF False] show ?thesis
          by (simp add: py_or_def)
      qed
    qed
  qed
qed

lemma serialNumber_spec:
  assumes "str_cells r"
  shows "(if truthy (serialNumber r) then [serialNumber r] else [])
         = map VStr (case spec_identifier r of None \<Rightarrow> [] | Some s \<Rightarrow> [s])"
proof -
  have h: "hashable (row_get r ''Device Serial Number'')" "hashable (row_get r ''Serial Number'')"
     "hashable (row_get r ''DeviceSerialNumber'')"
    using assms by (simp_all add: str_cells_def candidate_keys_def)
  have "spec_identifier r = first_id (map (row_get r) candidate_keys)"
    unfolding spec_identifier_def by (rule spec_identifier_first_id)
  then have sid: "spec_identifier r = first_id [row_get r ''Device Serial Number'',
      row_get r ''Serial Number'', row_get r ''DeviceSerialNumber'']"
    by (simp add: candidate_keys_def)
  show ?thesis unfolding serialNumber_def sid by (rule py_or_first_id[OF h])
qed

lemma serials_spec:
  assumes "list_all str_cells rows"
  shows "filter truthy (map serialNumber rows) = map VStr (List.map_filter spec_identifier rows)"
  using assms
proof (induction rows)
  case Nil
  then show ?case by (simp add: List.map_filter_def)
next
  case (Cons r rows)
  then have "str_cells r" by simp
  from serialNumber_spec[OF this] Cons show ?case
    by (auto simp: List.map_filter_def split: option.splits if_splits)
qed

lemma counter_add_keys: "fst ` set (counter_add x c) = insert x (fst ` set c)"
  by (induction x c rule: counter_add.induct) auto

lemma counter_add_distinct: "distinct (map fst c) \<Longrightarrow> distinct (map fst (counter_add x c))"
proof (induction x c rule: counter_add.induct)
  case (1 x)
  then show ?case by simp
next
  case (2 x k c kcs)
  then show ?case using counter_add_keys[of x kcs] by (auto simp: image_iff)
qed

lemma counter_add_cnt: "cnt (counter_add x c) k = cnt c k + (if k = x then 1 else 0)"
  by (induction x c rule: counter_add.induct) (auto simp: cnt_def)

lemma foldl_counter:
  "distinct (map fst c) \<Longrightarrow>
   distinct (map fst (foldl (\<lambda>counter x. counter_add x counter) c xs))
   \<and> fst ` set (foldl (\<lambda>counter x. counter_add x counter) c xs) = fst ` set c \<union> set xs
   \<and> (\<forall>k. cnt (foldl (\<lambda>counter x. counter_add x counter) c xs) k
            = cnt c k + int (count_list xs k))"
proof (induction xs arbitrary: c)
  case Nil
  then show ?case by simp
next
  case (Cons x xs)
  from Cons.IH[OF counter_add_distinct[OF Cons.prems, of x]]
  show ?case by (auto simp: counter_add_keys counter_add_cnt)
qed

lemma Counter_props:
  "distinct (map fst (Counter xs))" "fst ` set (Counter xs) = set xs"
  "cnt (Counter xs) k = int (count_list xs k)"
  using foldl_counter[of "[]" xs] by (auto simp: Counter_def cnt_def)

lemma distinct_cnt: "distinct (map fst c) \<Longrightarrow> (k, v) \<in> set c \<Longrightarrow> cnt c k = v"
  by (simp add: cnt_def)

lemma dup_sum:
  assumes "distinct (map fst c)"
  shows "sum_list (map snd (filter (\<lambda>(k, v). v > 1) c))
           - int (length (filter (\<lambda>(k, v). v > 1) c))
         = (\<Sum>k \<in> {k \<in> fst ` set c. 1 < cnt c k}. cnt c k)
           - int (card {k \<in> fst ` set c. 1 < cnt c k})"
proof -
  let ?d = "filter (\<lambda>(k, v). v > 1) c"
  have d: "distinct (map fst ?d)" using assms by (simp add: distinct_map_filter)
  have eq: "map snd ?d = map (cnt c) (map fst ?d)"
    using distinct_cnt[OF assms] by auto
  have s: "set (map fst ?d) = {k \<in> fst ` set c. 1 < cnt c k}"
    using distinct_cnt[OF assms] by (auto simp: image_iff)
  have "sum_list (map snd ?d) = sum (cnt c) (set (map fst ?d))"
    unfolding eq using d by (rule sum_list_distinct_conv_sum_set)
  moreover have "length ?d = card (set (map fst ?d))"
    using distinct_card[OF d] by simp
  ultimately show ?thesis unfolding s by simp
qed

lemma count_list_map_VStr: "count_list (map VStr ids) (VStr s) = count_list ids s"
  by (induction ids) auto

lemma duplicateCount_spec:
  "(let counter = Counter (map VStr ids);
        duplicates = filter (\<lambda>(k, v). v > 1) counter
    in sum_list (map snd duplicates) - int (length duplicates)) = spec_duplicates ids"
proof -
  let ?xs = "map VStr ids"
  let ?D = "{k \<in> set ids. 2 \<le> count_list ids k}"
  have set_eq: "{k \<in> fst ` set (Counter ?xs). 1 < cnt (Counter ?xs) k} = VStr ` ?D"
    by (auto simp: Counter_props count_list_map_VStr)
  have inj: "inj_on VStr ?D" by (simp add: inj_on_def)
  have "(\<Sum>k \<in> VStr ` ?D. cnt (Counter ?xs) k) = (\<Sum>k \<in> ?D. int (count_list ids k))"
    by (simp add: sum.reindex[OF inj] Counter_props count_list_map_VStr)
  moreover have "card (VStr ` ?D) = card ?D" by (rule card_image[OF inj])
  ultimately show ?thesis
    using dup_sum[OF Counter_props(1), of ?xs]
    by (simp add: Let_def set_eq spec_duplicates_def)
qed

lemma checkDuplicates_count:
  assumes "list_all str_cells (consolidatedData st)"
  shows "fst (checkDuplicates st)
           = Inr (spec_duplicates (List.map_filter spec_identifier (consolidatedData st)))"
proof -
  let ?ids = "List.map_filter spec_identifier (consolidatedData st)"
  have ser: "filter truthy (map serialNumber (consolidatedData st)) = map VStr ?ids"
    by (rule serials_spec[OF assms])
  have hash: "list_all hashable (map VStr ?ids)" by (simp add: list_all_iff)
  have zero: "spec_duplicates [] = 0" by (simp add: spec_duplicates_def)
  show ?thesis
  proof (cases "?ids = []")
    case True
    then show ?thesis using ser zero by (simp add: checkDuplicates_def)
  next
    case False
    then show ?thesis
      using ser hash duplicateCount_spec[of ?ids]
      by (simp add: checkDuplicates_def Let_def)
  qed
qed

text \<open>
  Claim C1. On a dataset whose candidate columns hold strings or \<open>None\<close>,
  \<open>checkDuplicates\<close> returns the specification's count over the specification's
  identifiers: each row gives the first non-empty value under
  \<open>Device Serial Number\<close>, \<open>Serial Number\<close>, \<open>DeviceSerialNumber\<close>, in that order, a
  row without one is skipped, and the result is the sum of the counts of the
  identifiers that occur at least twice minus the number of such identifiers. It is 0
  when no row carries an identifier. Every dataset that \<open>consolidateFiles\<close> builds from
  an empty one is of that kind, whatever the files hold, so the same is true of
  \<open>checkDuplicates\<close> after \<open>consolidateFiles\<close>.
\<close>

theorem checkDuplicates_spec:
  "(list_all str_cells (consolidatedData st)
      \<longrightarrow> fst (checkDuplicates st)
            = Inr (spec_duplicates (List.map_filter spec_identifier (consolidatedData st))))
   \<and> (list_all str_cells (consolidatedData st)
        \<and> List.map_filter spec_identifier (consolidatedData st) = []
      \<longrightarrow> fst (checkDuplicates st) = Inr 0)
   \<and> (consolidatedData st = []
      \<longrightarrow> fst (checkDuplicates (snd (consolidateFiles csv open_read st)))
            = Inr (spec_duplicates
                     (List.map_filter spec_identifier
                        (consolidatedData (snd (consolidateFiles csv open_read st))))))"
proof -
  have zero: "spec_duplicates [] = 0" by (simp add: spec_duplicates_def)
  have 1: "list_all str_cells (consolidatedData st)
      \<longrightarrow> fst (checkDuplicates st)
            = Inr (spec_duplicates (List.map_filter spec_identifier (consolidatedData st)))"
    using checkDuplicates_count by blast
  have 2: "list_all str_cells (consolidatedData st)
        \<and> List.map_filter spec_identifier (consolidatedData st) = []
      \<longrightarrow> fst (checkDuplicates st) = Inr 0"
    using checkDuplicates_count[of st] zero by auto
  have 3: "consolidatedData st = []
      \<longrightarrow> fst (checkDuplicates (snd (consolidateFiles csv open_read st)))
            = Inr (spec_duplicates
                     (List.map_filter spec_identifier
                        (consolidatedData (snd (consolidateFiles csv open_read st)))))"
  proof
    assume "consolidatedData st = []"
    then have "list_all str_cells (consolidatedData st)" by simp
    from checkDuplicates_count[OF consolidateFiles_str_cells[OF this]]
    show "fst (checkDuplicates (snd (consolidateFiles csv open_read st)))
            = Inr (spec_duplicates
                     (List.map_filter spec_identifier
                        (consolidatedData (snd (consolidateFiles csv open_read st)))))" .
  qed
  show ?thesis by (intro conjI) (fact 1, fact 2, fact 3)
qed

lemma ex_cells: "list_all str_cells example_rows"
  by (simp add: example_rows_def str_cells_def candidate_keys_def row_get_def)

lemma ex_ids: "List.map_filter spec_identifier example_rows = [''A'', ''A'', ''B'', ''C'', ''C'', ''C'']"
  by (simp add: example_rows_def spec_identifier_def candidate_keys_def List.map_filter_def)

lemma ex_run: "fst (checkDuplicates (init\<lparr>consolidatedData := example_rows\<rparr>)) = Inr 3"
  by (simp add: checkDuplicates_def example_rows_def serialNumber_def py_or_def row_get_def Counter_def)

lemma serial_records:
  "simple_records (CHR '','') serial_file
     = [[''Serial Number'', ''Model''], [''ABC123'', ''Laptop''], [''XYZ999'', ''Desktop''],
        [''ABC123'', ''Tablet'']]"
  by (simp add: simple_records_def text_lines_def serial_file_def)

lemma serial_strip: "strip serial_file \<noteq> []"
  by (simp add: strip_def isspace_def serial_file_def)

lemma serial_read:
  "readCsvFile example_csv (Inr serial_file)
     = ([[KStr ''Serial Number'' \<mapsto> VStr ''ABC123'', KStr ''Model'' \<mapsto> VStr ''Laptop''],
         [KStr ''Serial Number'' \<mapsto> VStr ''XYZ999'', KStr ''Model'' \<mapsto> VStr ''Desktop''],
         [KStr ''Serial Number'' \<mapsto> VStr ''ABC123'', KStr ''Model'' \<mapsto> VStr ''Tablet'']],
        [''Serial Number'', ''Model''], True)"
  using readCsvFile_parsed[OF serial_strip, of example_csv, unfolded example_reader serial_records]
  by (simp add: DictReader_rows_def DictReader_row_def dict_zip_def)

lemma serial_run:
  "fst (checkDuplicates (snd (consolidateFiles example_csv (\<lambda>p. Inr serial_file) serial_state)))
     = Inr 1"
  by (simp add: consolidateFiles_def consolidate_file_def serial_read serial_state_def init_def
      checkDuplicates_def serialNumber_def py_or_def row_get_def Counter_def)

lemma serial_ids:
  "List.map_filter spec_identifier
     (consolidatedData (snd (consolidateFiles example_csv (\<lambda>p. Inr serial_file) serial_state)))
     = [''ABC123'', ''XYZ999'', ''ABC123'']"
  by (simp add: consolidateFiles_def consolidate_file_def serial_read serial_state_def init_def
      spec_identifier_def candidate_keys_def List.map_filter_def)

text \<open>
  The identifiers A, A, B, C, C, C give \<open>(2 + 3) - 2 = 3\<close>; an empty dataset gives 0;
  a file with the serial numbers ABC123, XYZ999, ABC123 gives 1 after consolidation.
\<close>

theorem checkDuplicates_spec_witness:
  "list_all str_cells example_rows
   \<and> List.map_filter spec_identifier example_rows = [''A'', ''A'', ''B'', ''C'', ''C'', ''C'']
   \<and> fst (checkDuplicates (init\<lparr>consolidatedData := example_rows\<rparr>)) = Inr 3
   \<and> spec_duplicates [''A'', ''A'', ''B'', ''C'', ''C'', ''C''] = 3
   \<and> fst (checkDuplicates (init\<lparr>consolidatedData := []\<rparr>)) = Inr 0
   \<and> consolidatedData serial_state = []
   \<and> fst (checkDuplicates (snd (consolidateFiles example_csv (\<lambda>p. Inr serial_file) serial_state)))
       = Inr 1
   \<and> spec_duplicates [''ABC123'', ''XYZ999'', ''ABC123''] = 1"
proof -
  have c: "list_all str_cells (consolidatedData (init\<lparr>consolidatedData := example_rows\<rparr>))"
    using ex_cells by simp
  have e: "list_all str_cells (consolidatedData (init\<lparr>consolidatedData := []\<rparr>))
           \<and> List.map_filter spec_identifier (consolidatedData (init\<lparr>consolidatedData := []\<rparr>)) = []"
    by (simp add: List.map_filter_def)
  have s: "consolidatedData serial_state = []" by (simp add: serial_state_def init_def)
  have "fst (checkDuplicates (init\<lparr>consolidatedData := example_rows\<rparr>))
          = Inr (spec_duplicates [''A'', ''A'', ''B'', ''C'', ''C'', ''C''])"
    using checkDuplicates_spec[of "init\<lparr>consolidatedData := example_rows\<rparr>", THEN conjunct1] c ex_ids
    by simp
  then have three: "spec_duplicates [''A'', ''A'', ''B'', ''C'', ''C'', ''C''] = 3"
    using ex_run by simp
  have zero: "fst (checkDuplicates (init\<lparr>consolidatedData := []\<rparr>)) = Inr 0"
    using checkDuplicates_spec[of "init\<lparr>consolidatedData := []\<rparr>", THEN conjunct2, THEN conjunct1] e
    by blast
  have "fst (checkDuplicates (snd (consolidateFiles example_csv (\<lambda>p. Inr serial_file) serial_state)))
          = Inr (spec_duplicates [''ABC123'', ''XYZ999'', ''ABC123''])"
    using checkDuplicates_spec[of serial_state example_csv "\<lambda>p. Inr serial_file",
        THEN conjunct2, THEN conjunct2] s
    unfolding serial_ids by blast
  then have one: "spec_duplicates [''ABC123'', ''XYZ999'', ''ABC123''] = 1"
    using serial_run by simp
  show ?thesis
    by (intro conjI) (fact ex_cells, fact ex_ids, fact ex_run, fact three, fact zero, fact s,
        fact serial_run, fact one)
qed

text \<open>
  Claim C9. \<open>checkDuplicates\<close> is read-only: whatever it returns, also when the
  counter raises, the consolidator it hands back is the one it was given, with the
  same rows, headers, counters and error files.
\<close>

theorem checkDuplicates_readonly:
  "snd (checkDuplicates st) = st
   \<and> consolidatedData (snd (checkDuplicates st)) = consolidatedData st
   \<and> allHeaders (snd (checkDuplicates st)) = allHeaders st
   \<and> processedCount (snd (checkDuplicates st)) = processedCount st
   \<and> errorCount (snd (checkDuplicates st)) = errorCount st
   \<and> errorFiles (snd (checkDuplicates st)) = errorFiles st"
  by (simp add: checkDuplicates_def Let_def)

end
